theory Spec2Isabelle
  imports Complex_Main "HOL-Library.AList"
begin

section \<open>Python values and errors\<close>

text \<open>
  The exceptions the solver can raise: an index out of range on a string or list, a
  missing dictionary key, numpy's refusal to draw from an empty sequence, and an
  attribute that was never assigned.
\<close>

datatype py_error = IndexError | KeyError | ValueError | AttributeError

section \<open>Feedback encoder: \<open>get_matches\<close>\<close>

text \<open>
  \<^verbatim>\<open>
  def get_matches(source, target):
      score = 0
      for i in range(len(target)):
          if source[i] == target[i]:
              score += 2 * (3**i)
          elif source[i] in target:
              score += 3**i
      return score
  \<close>
  The loop runs over the indices of \<open>target\<close>; \<open>source[i]\<close> raises IndexError when
  \<open>source\<close> is the shorter word.
\<close>

fun get_matches_loop :: "string \<Rightarrow> string \<Rightarrow> nat list \<Rightarrow> nat \<Rightarrow> py_error + nat" where
  "get_matches_loop source target [] score = Inr score"
| "get_matches_loop source target (i # js) score =
     (if length source \<le> i then Inl IndexError
      else if source ! i = target ! i then get_matches_loop source target js (score + 2 * 3 ^ i)
      else if source ! i \<in> set target then get_matches_loop source target js (score + 3 ^ i)
      else get_matches_loop source target js score)"

definition get_matches :: "string \<Rightarrow> string \<Rightarrow> py_error + nat" where
  "get_matches source target = get_matches_loop source target [0..<length target] 0"

text \<open>The digit the specification assigns to position \<open>i\<close>.\<close>

definition spec_digit :: "string \<Rightarrow> string \<Rightarrow> nat \<Rightarrow> nat" where
  "spec_digit guess target i =
     (if guess ! i = target ! i then 2 else if guess ! i \<in> set target then 1 else 0)"

section \<open>Candidate trie\<close>

text \<open>
  A trie node is a Python dict whose keys are single letters (mapping to child dicts)
  and, on a node that ends a word, the key \<open>"eow"\<close>. The letter keys keep their insertion
  order, so they are an association list; the \<open>"eow"\<close> key is a flag.
  \<^verbatim>\<open>
  class Trie:
      def __init__(self):
          self.root = {}
          self.list = []
  \<close>
\<close>

datatype node = Node (eow: bool) (items: "(char \<times> node) list")

record trie =
  root_t :: node
  list_t :: "string list"

definition Trie :: trie where
  "Trie = \<lparr>root_t = Node False [], list_t = []\<rparr>"

text \<open>
  \<^verbatim>\<open>
  def insert(self, word):
      cur = self.root
      for char in word:
          if char not in cur:
              cur[char] = {}
          cur = cur[char]
      cur["eow"] = True
      self.list.append(word)
  \<close>
  \<open>AList.update\<close> is the dict assignment: it replaces the value of a key in place and
  appends a new key at the end.
\<close>

fun insert_node :: "string \<Rightarrow> node \<Rightarrow> node" where
  "insert_node [] (Node e cs) = Node True cs"
| "insert_node (char # word) (Node e cs) =
     Node e (AList.update char
       (insert_node word (case map_of cs char of None \<Rightarrow> Node False [] | Some child \<Rightarrow> child)) cs)"

definition insert_trie :: "string \<Rightarrow> trie \<Rightarrow> trie" where
  "insert_trie word self =
     \<lparr>root_t = insert_node word (root_t self), list_t = list_t self @ [word]\<rparr>"

text \<open>The loop of \<open>Guesser.__init__\<close> that loads the word list into a fresh trie.\<close>

definition build :: "string list \<Rightarrow> trie" where
  "build ws = fold insert_trie ws Trie"

text \<open>
  The words a node structure represents: the paths from the node to a node marked
  \<open>"eow"\<close>, in dict order.
\<close>

fun words_of :: "node \<Rightarrow> string list" where
  "words_of (Node e cs) =
     (if e then [[]] else []) @ concat (map (\<lambda>(c, n). map ((#) c) (words_of n)) cs)"

text \<open>A node structure is a nest of dicts: the keys of every dict are distinct.\<close>

fun wf_node :: "node \<Rightarrow> bool" where
  "wf_node (Node e cs) = (distinct (map fst cs) \<and> list_all (\<lambda>(c, n). wf_node n) cs)"

subsection \<open>\<open>Trie.filter_words\<close>\<close>

text \<open>
  \<^verbatim>\<open>
  def filter_words(self, gray, gray_pos, yellow, green_pos, guess):
      new_trie = Trie()
      gray_set = set(gray)
      green_values = set(green_pos.values())

      def dfs(cur, current_word, yellow, new_node):
          current_pos = len(current_word) - 1
          if current_pos in green_pos and current_word[-1] != green_pos[current_pos]:
              return False
          if current_pos in gray_pos and current_word[-1] == gray_pos[current_pos]:
              return False
          if "eow" in cur:
              if current_word == guess:
                  return False
              for char, count in yellow.items():
                  if count > 0 and current_word.count(char) < count:
                      return False
              new_node["eow"] = True
              new_trie.list.append(current_word)
              return True
          valid_child = False
          items = list(cur.items())
          for char, next_node in items:
              if char in gray_set and not yellow.get(char, 0) and char not in green_values:
                  continue
              new_child = {}
              if char in yellow and yellow[char] > 0:
                  updated_yellow = yellow.copy()
                  updated_yellow[char] -= 1
              else:
                  updated_yellow = yellow
              if dfs(next_node, current_word + char, updated_yellow, new_child):
                  new_node[char] = new_child
                  valid_child = True
          return valid_child

      dfs(self.root, "", yellow, new_trie.root)
      return new_trie
  \<close>
  The variables of \<open>filter_words\<close> that \<open>dfs\<close> reads are a record. The position dicts
  have the positions \<open>0, 1, ...\<close> of \<open>enumerate\<close> as keys (type \<open>nat\<close>), so at the root, where
  \<open>current_pos = -1\<close>, neither position check applies. \<open>yellow\<close> is a \<open>Counter\<close>: a dict
  from letters to integer counts.
\<close>

record closure =
  gray_set :: "char set"
  green_values :: "char set"
  green_pos_arg :: "(nat \<times> char) list"
  gray_pos_arg :: "(nat \<times> char) list"
  guess_arg :: string

text \<open>\<open>yellow.get(char, 0)\<close>\<close>

definition yget :: "(char \<times> int) list \<Rightarrow> char \<Rightarrow> int" where
  "yget yellow char = (case map_of yellow char of None \<Rightarrow> 0 | Some count \<Rightarrow> count)"

definition green_fails :: "closure \<Rightarrow> string \<Rightarrow> bool" where
  "green_fails cl current_word =
     (current_word \<noteq> [] \<and>
      (case map_of (green_pos_arg cl) (length current_word - 1) of
         None \<Rightarrow> False | Some g \<Rightarrow> last current_word \<noteq> g))"

definition gray_fails :: "closure \<Rightarrow> string \<Rightarrow> bool" where
  "gray_fails cl current_word =
     (current_word \<noteq> [] \<and>
      (case map_of (gray_pos_arg cl) (length current_word - 1) of
         None \<Rightarrow> False | Some g \<Rightarrow> last current_word = g))"

definition yellow_fails :: "(char \<times> int) list \<Rightarrow> string \<Rightarrow> bool" where
  "yellow_fails yellow current_word =
     list_ex (\<lambda>(char, count). 0 < count \<and> int (count_list current_word char) < count) yellow"

definition skip_gray :: "closure \<Rightarrow> (char \<times> int) list \<Rightarrow> char \<Rightarrow> bool" where
  "skip_gray cl yellow char =
     (char \<in> gray_set cl \<and> yget yellow char = 0 \<and> char \<notin> green_values cl)"

definition update_yellow :: "(char \<times> int) list \<Rightarrow> char \<Rightarrow> (char \<times> int) list" where
  "update_yellow yellow char =
     (if 0 < yget yellow char then AList.update char (yget yellow char - 1) yellow else yellow)"

text \<open>
  \<open>dfs\<close> returns its boolean together with the contents of \<open>new_node\<close> (which every
  caller passes in as a fresh empty dict) and the new value of \<open>new_trie.list\<close>.
  \<open>dfs_items\<close> is the loop over the children, with the loop's variables
  \<open>valid_child\<close>, \<open>new_node\<close> and \<open>new_trie.list\<close> as its state.
\<close>

fun dfs :: "closure \<Rightarrow> node \<Rightarrow> string \<Rightarrow> (char \<times> int) list \<Rightarrow> string list \<Rightarrow>
            bool \<times> node \<times> string list"
  and dfs_items :: "closure \<Rightarrow> (char \<times> node) list \<Rightarrow> string \<Rightarrow> (char \<times> int) list \<Rightarrow>
            bool \<times> node \<times> string list \<Rightarrow> bool \<times> node \<times> string list" where
  "dfs cl (Node e cs) current_word yellow lst =
     (if green_fails cl current_word then (False, Node False [], lst)
      else if gray_fails cl current_word then (False, Node False [], lst)
      else if e then
        (if current_word = guess_arg cl then (False, Node False [], lst)
         else if yellow_fails yellow current_word then (False, Node False [], lst)
         else (True, Node True [], lst @ [current_word]))
      else dfs_items cl cs current_word yellow (False, Node False [], lst))"
| "dfs_items cl [] current_word yellow acc = acc"
| "dfs_items cl ((char, next_node) # rest) current_word yellow (valid_child, new_node, lst) =
     (if skip_gray cl yellow char
      then dfs_items cl rest current_word yellow (valid_child, new_node, lst)
      else
        (case dfs cl next_node (current_word @ [char]) (update_yellow yellow char) lst of
           (ok, new_child, lst') \<Rightarrow>
             if ok
             then dfs_items cl rest current_word yellow
                    (True, Node (eow new_node) (AList.update char new_child (items new_node)), lst')
             else dfs_items cl rest current_word yellow (valid_child, new_node, lst')))"

definition filter_words ::
  "trie \<Rightarrow> char set \<Rightarrow> (nat \<times> char) list \<Rightarrow> (char \<times> int) list \<Rightarrow> (nat \<times> char) list \<Rightarrow>
   string \<Rightarrow> trie" where
  "filter_words self gray gray_pos yellow green_pos guess =
     (let cl = \<lparr>gray_set = gray, green_values = snd ` set green_pos,
                 green_pos_arg = green_pos, gray_pos_arg = gray_pos, guess_arg = guess\<rparr>
      in case dfs cl (root_t self) [] yellow (list_t Trie) of
           (ok, new_root, lst) \<Rightarrow> \<lparr>root_t = new_root, list_t = lst\<rparr>)"

text \<open>Looking a word up in a node structure, dict by dict.\<close>

fun contains :: "node \<Rightarrow> string \<Rightarrow> bool" where
  "contains (Node e cs) [] = e"
| "contains (Node e cs) (c # w) =
     (case map_of cs c of None \<Rightarrow> False | Some n \<Rightarrow> contains n w)"

text \<open>
  The result of \<open>dfs\<close> without the loop state: \<open>prune\<close> is the new node (\<open>None\<close> when
  \<open>dfs\<close> returns \<open>False\<close>), \<open>prune_items\<close> the children the loop adds to it.
\<close>

fun prune :: "closure \<Rightarrow> node \<Rightarrow> string \<Rightarrow> (char \<times> int) list \<Rightarrow> node option"
  and prune_items :: "closure \<Rightarrow> (char \<times> node) list \<Rightarrow> string \<Rightarrow> (char \<times> int) list \<Rightarrow>
        (char \<times> node) list" where
  "prune cl (Node e cs) cw y =
     (if green_fails cl cw \<or> gray_fails cl cw then None
      else if e then
        (if cw = guess_arg cl \<or> yellow_fails y cw then None else Some (Node True []))
      else (case prune_items cl cs cw y of [] \<Rightarrow> None | k # ks \<Rightarrow> Some (Node False (k # ks))))"
| "prune_items cl [] cw y = []"
| "prune_items cl ((c, n) # rest) cw y =
     (if skip_gray cl y c then prune_items cl rest cw y
      else (case prune cl n (cw @ [c]) (update_yellow y c) of
              None \<Rightarrow> prune_items cl rest cw y
            | Some k \<Rightarrow> (c, k) # prune_items cl rest cw y))"

text \<open>The words below the children of a node, each with its letter in front.\<close>

definition item_words :: "(char \<times> node) list \<Rightarrow> string list" where
  "item_words cs = concat (map (\<lambda>(c, n). map ((#) c) (words_of n)) cs)"

text \<open>
  What \<open>dfs\<close> does along one path: \<open>accept cl cw y s\<close> holds when \<open>dfs\<close>, called at the
  node of the word \<open>cw\<close> with the counter \<open>y\<close>, walks down the letters \<open>s\<close> and accepts
  the word \<open>cw @ s\<close> at the end.
\<close>

fun accept :: "closure \<Rightarrow> string \<Rightarrow> (char \<times> int) list \<Rightarrow> string \<Rightarrow> bool" where
  "accept cl cw y [] =
     (\<not> green_fails cl cw \<and> \<not> gray_fails cl cw \<and> cw \<noteq> guess_arg cl \<and> \<not> yellow_fails y cw)"
| "accept cl cw y (c # s) =
     (\<not> green_fails cl cw \<and> \<not> gray_fails cl cw \<and> \<not> skip_gray cl y c \<and>
      accept cl (cw @ [c]) (update_yellow y c) s)"

text \<open>
  The paths \<open>dfs\<close> can reach: it returns at the first node marked \<open>"eow"\<close> and never
  looks at the children of such a node.
\<close>

fun paths1 :: "node \<Rightarrow> string list" where
  "paths1 (Node e cs) =
     (if e then [[]] else concat (map (\<lambda>(c, n). map ((#) c) (paths1 n)) cs))"

text \<open>
  The shape of every node \<open>dfs\<close> builds: a node marked \<open>"eow"\<close> has no children,
  and every other node has a child.
\<close>

fun tight :: "node \<Rightarrow> bool" where
  "tight (Node e cs) = (if e then cs = [] else cs \<noteq> [] \<and> list_all (\<lambda>(c, n). tight n) cs)"

text \<open>
  A \<open>Trie\<close> object as the program builds it: its dicts have distinct keys and its word
  list holds the words of its node structure.
\<close>

definition trie_ok :: "trie \<Rightarrow> bool" where
  "trie_ok T = (wf_node (root_t T) \<and> set (list_t T) = set (words_of (root_t T)))"

text \<open>The closure variables of \<open>dfs\<close>, as \<open>filter_words\<close> sets them.\<close>

definition mk_closure :: "char set \<Rightarrow> (nat \<times> char) list \<Rightarrow> (nat \<times> char) list \<Rightarrow> string \<Rightarrow> closure" where
  "mk_closure gray gray_pos green_pos guess =
     \<lparr>gray_set = gray, green_values = snd ` set green_pos,
      green_pos_arg = green_pos, gray_pos_arg = gray_pos, guess_arg = guess\<rparr>"

text \<open>The two position checks of \<open>dfs\<close> at every node along a path.\<close>

fun pos_ok :: "closure \<Rightarrow> string \<Rightarrow> string \<Rightarrow> bool" where
  "pos_ok cl cw [] = (\<not> green_fails cl cw \<and> \<not> gray_fails cl cw)"
| "pos_ok cl cw (c # s) =
     (\<not> green_fails cl cw \<and> \<not> gray_fails cl cw \<and> pos_ok cl (cw @ [c]) s)"

text \<open>
  The pruning of gray letters along a path \<open>s\<close>, in terms of letter counts: a gray letter
  that is no green letter and has a count \<open>k \<ge> 0\<close> in \<open>yellow\<close> occurs at most \<open>k\<close> times.
\<close>

definition gray_bound :: "closure \<Rightarrow> (char \<times> int) list \<Rightarrow> string \<Rightarrow> bool" where
  "gray_bound cl y s \<longleftrightarrow>
     (\<forall>c. c \<in> gray_set cl \<and> c \<notin> green_values cl \<and> 0 \<le> yget y c \<longrightarrow>
          int (count_list s c) \<le> yget y c)"

text \<open>
  The check of the yellow counts at the end of a path \<open>s\<close> from the word \<open>cw\<close>: it compares
  the letter counts of the whole word with what is left of the counts after the path.
\<close>

definition yellow_left :: "(char \<times> int) list \<Rightarrow> string \<Rightarrow> string \<Rightarrow> bool" where
  "yellow_left y cw s \<longleftrightarrow>
     (\<forall>c. 0 < yget y c \<and> int (count_list s c) < yget y c \<longrightarrow>
          yget y c - int (count_list s c) \<le> int (count_list (cw @ s) c))"

text \<open>
  The words the specification says \<open>filter\<close> keeps, condition by condition: the green
  positions, the gray positions, the yellow counts, the gray letters that are neither
  yellow nor green, and the excluded guess.
\<close>

definition spec_filter_ok ::
  "char set \<Rightarrow> (nat \<times> char) list \<Rightarrow> (char \<times> int) list \<Rightarrow> (nat \<times> char) list \<Rightarrow> string \<Rightarrow>
   string \<Rightarrow> bool" where
  "spec_filter_ok gray gray_pos yellow green_pos guess w \<longleftrightarrow>
     list_all (\<lambda>(p, g). w ! p = g) green_pos \<and>
     list_all (\<lambda>(p, g). w ! p \<noteq> g) gray_pos \<and>
     list_all (\<lambda>(c, k). 0 < k \<longrightarrow> k \<le> int (count_list w c)) yellow \<and>
     list_all (\<lambda>c. c \<in> gray \<longrightarrow> 0 < yget yellow c \<or> c \<in> snd ` set green_pos) w \<and>
     w \<noteq> guess"

section \<open>Entropy scorer: \<open>Guesser.get_max_entropy_word\<close>\<close>

text \<open>
  \<^verbatim>\<open>
  def get_max_entropy_word(self, sources, targets):
      max_entropy = float("-inf")
      best_guess = ""
      tot_counts = len(targets)
      if tot_counts == 0:
          return sources[0] if sources else "", 0
      log2_cache = {1/tot_counts: np.log2(1/tot_counts)}
      for w1 in sources:
          pattern_distribution = Counter()
          if w1 not in self._pattern_cache:
              self._pattern_cache[w1] = {}
          cur = self._pattern_cache[w1]
          for w2 in targets:
              if w2 not in cur:
                  cur[w2] = get_matches(w1, w2)
              pattern_distribution[cur[w2]] += 1
          entropy = 0
          for count in pattern_distribution.values():
              prob = count / tot_counts
              if prob not in log2_cache:
                  log2_cache[prob] = np.log2(prob)
              entropy -= prob * log2_cache[prob]
          if entropy > max_entropy:
              best_guess = w1
              max_entropy = entropy
      return best_guess, max_entropy
  \<close>
  The pattern cache is a dict of dicts that is only ever looked up by key: a map of maps.
  It is mutated in place, so the model returns it also when \<open>get_matches\<close> raises. The
  counter \<open>pattern_distribution\<close> is read in insertion order. Floating-point numbers
  are modelled as real numbers, \<open>float("-inf")\<close> as a value below all of them; the dict
  \<open>log2_cache\<close> only saves calls of \<open>np.log2\<close> and is left out.
\<close>

type_synonym pattern_cache = "string \<rightharpoonup> (string \<rightharpoonup> nat)"

datatype pyfloat = NegInf | Fin real

text \<open>\<open>entropy > max_entropy\<close>\<close>

fun gt_float :: "real \<Rightarrow> pyfloat \<Rightarrow> bool" where
  "gt_float entropy NegInf = True"
| "gt_float entropy (Fin m) = (m < entropy)"

text \<open>\<open>pattern_distribution[v] += 1\<close>\<close>

definition counter_inc :: "(nat \<times> nat) list \<Rightarrow> nat \<Rightarrow> (nat \<times> nat) list" where
  "counter_inc pd v = AList.update v ((case map_of pd v of None \<Rightarrow> 0 | Some n \<Rightarrow> n) + 1) pd"

text \<open>The loop over \<open>targets\<close>, with \<open>cur\<close> and \<open>pattern_distribution\<close> as its state.\<close>

fun targets_loop :: "string \<Rightarrow> string list \<Rightarrow> (string \<rightharpoonup> nat) \<Rightarrow> (nat \<times> nat) list \<Rightarrow>
    (string \<rightharpoonup> nat) \<times> (py_error + (nat \<times> nat) list)" where
  "targets_loop w1 [] cur pd = (cur, Inr pd)"
| "targets_loop w1 (w2 # rest) cur pd =
     (case cur w2 of
        Some v \<Rightarrow> targets_loop w1 rest cur (counter_inc pd v)
      | None \<Rightarrow>
          (case get_matches w1 w2 of
             Inl e \<Rightarrow> (cur, Inl e)
           | Inr v \<Rightarrow> targets_loop w1 rest (cur(w2 \<mapsto> v)) (counter_inc pd v)))"

text \<open>The loop over the counts: \<open>entropy -= prob * log2(prob)\<close>.\<close>

definition entropy_loop :: "nat list \<Rightarrow> nat \<Rightarrow> real" where
  "entropy_loop counts tot_counts =
     fold (\<lambda>count entropy.
             entropy - (real count / real tot_counts) * log 2 (real count / real tot_counts))
       counts 0"

text \<open>The loop over \<open>sources\<close>, with the cache, \<open>best_guess\<close> and \<open>max_entropy\<close> as its state.\<close>

fun sources_loop :: "string list \<Rightarrow> string list \<Rightarrow> pattern_cache \<Rightarrow> string \<Rightarrow> pyfloat \<Rightarrow>
    pattern_cache \<times> (py_error + string \<times> pyfloat)" where
  "sources_loop [] targets cache best_guess max_entropy = (cache, Inr (best_guess, max_entropy))"
| "sources_loop (w1 # rest) targets cache best_guess max_entropy =
     (case targets_loop w1 targets (case cache w1 of None \<Rightarrow> Map.empty | Some cur \<Rightarrow> cur) [] of
        (cur, Inl e) \<Rightarrow> (cache(w1 \<mapsto> cur), Inl e)
      | (cur, Inr pd) \<Rightarrow>
          if gt_float (entropy_loop (map snd pd) (length targets)) max_entropy
          then sources_loop rest targets (cache(w1 \<mapsto> cur)) w1
                 (Fin (entropy_loop (map snd pd) (length targets)))
          else sources_loop rest targets (cache(w1 \<mapsto> cur)) best_guess max_entropy)"

definition get_max_entropy_word :: "pattern_cache \<Rightarrow> string list \<Rightarrow> string list \<Rightarrow>
    pattern_cache \<times> (py_error + string \<times> pyfloat)" where
  "get_max_entropy_word cache sources targets =
     (if length targets = 0
      then (cache, Inr (case sources of [] \<Rightarrow> [] | s # _ \<Rightarrow> s, Fin 0))
      else sources_loop sources targets cache [] NegInf)"

text \<open>
  The invariant of the pattern cache: every stored entry is the value of \<open>get_matches\<close>.
\<close>

definition cur_inv :: "string \<Rightarrow> (string \<rightharpoonup> nat) \<Rightarrow> bool" where
  "cur_inv w1 cur \<longleftrightarrow> (\<forall>w2 v. cur w2 = Some v \<longrightarrow> get_matches w1 w2 = Inr v)"

definition cache_inv :: "pattern_cache \<Rightarrow> bool" where
  "cache_inv cache \<longleftrightarrow> (\<forall>w1 cur. cache w1 = Some cur \<longrightarrow> cur_inv w1 cur)"

text \<open>
  The same computation without a cache: the distribution of the feedback codes of one
  source, and the choice of the best source given a score for each.
\<close>

fun dist_loop :: "string \<Rightarrow> string list \<Rightarrow> (nat \<times> nat) list \<Rightarrow> py_error + (nat \<times> nat) list" where
  "dist_loop w1 [] pd = Inr pd"
| "dist_loop w1 (w2 # rest) pd =
     (case get_matches w1 w2 of
        Inl e \<Rightarrow> Inl e
      | Inr v \<Rightarrow> dist_loop w1 rest (counter_inc pd v))"

fun best_loop :: "string list \<Rightarrow> string list \<Rightarrow> string \<Rightarrow> pyfloat \<Rightarrow> py_error + string \<times> pyfloat" where
  "best_loop [] targets best_guess max_entropy = Inr (best_guess, max_entropy)"
| "best_loop (w1 # rest) targets best_guess max_entropy =
     (case dist_loop w1 targets [] of
        Inl e \<Rightarrow> Inl e
      | Inr pd \<Rightarrow>
          if gt_float (entropy_loop (map snd pd) (length targets)) max_entropy
          then best_loop rest targets w1 (Fin (entropy_loop (map snd pd) (length targets)))
          else best_loop rest targets best_guess max_entropy)"



section \<open>The strategist: \<open>Guesser\<close>\<close>

text \<open>
  The object of class \<open>Guesser\<close> as a record. A leading underscore of an attribute is
  written \<open>u_\<close>. The attributes \<open>word_trie\<close>, \<open>yellow\<close>, \<open>gray\<close>, \<open>green_pos\<close> and \<open>gray_pos\<close>
  are not created by \<open>__init__\<close>: they are \<open>Absent\<close> until a method assigns them, and reading
  an absent attribute raises \<open>AttributeError\<close>. \<open>rng_state\<close> is not an attribute: it counts
  the draws taken so far from the global random generators of \<open>random\<close> and \<open>numpy\<close>.
\<close>

datatype 'a attr = Absent | Present 'a

record guesser =
  u_word_list :: "string list"
  u_manual :: string
  u_tried :: "string list"
  u_word_trie :: trie
  u_pattern_cache :: pattern_cache
  letter_frequency_abs :: "(char \<times> nat) list"
  letter_frequency_pos :: "(nat \<times> (char \<times> nat) list) list"
  u_tried_letter :: "char set"
  word_list :: "string list"
  opening_word :: string
  word_trie_attr :: "trie option attr"
  yellow_attr :: "(char \<times> int) list attr"
  gray_attr :: "char set attr"
  green_pos_attr :: "(nat \<times> char) list attr"
  gray_pos_attr :: "(nat \<times> char) list attr"
  rng_state :: nat

text \<open>
  What the program takes from outside: the line typed at the console, the iteration order
  of a Python set, and the random generators. \<open>shuffle n xs\<close> is
  \<open>sorted(xs, key=lambda x: random())\<close> and \<open>choice n a size\<close> is
  \<open>np.random.choice(a, size)\<close> for a non-empty \<open>a\<close>, both at generator state \<open>n\<close>.
\<close>

record world =
  console_input :: string
  set_order :: "char set \<Rightarrow> char list"
  shuffle :: "nat \<Rightarrow> char list \<Rightarrow> char list"
  choice :: "nat \<Rightarrow> char list \<Rightarrow> nat \<Rightarrow> char list"

text \<open>
  \<open>collections.Counter(iterable)\<close>: a dict of counts, in the order of first occurrence.
  \<open>most_common(n)\<close> gives the \<open>n\<close> entries of greatest count, entries of equal count in
  dict order.
\<close>

definition Counter :: "'a list \<Rightarrow> ('a \<times> nat) list" where
  "Counter xs =
     fold (\<lambda>x c. AList.update x ((case map_of c x of None \<Rightarrow> 0 | Some n \<Rightarrow> n) + 1) c) xs []"

definition most_common :: "nat \<Rightarrow> ('a \<times> nat) list \<Rightarrow> ('a \<times> nat) list" where
  "most_common n c = take n (sort_key (\<lambda>(k, v). - int v) c)"

subsection \<open>\<open>update_frequencies\<close>\<close>

text \<open>
  \<^verbatim>\<open>
  def update_frequencies(self, abs=True, pos=True):
      if not self.word_list:
          return
      if abs:
          self.letter_frequency_abs = Counter(''.join(self.word_list))
      if pos:
          self.letter_frequency_pos = {}
          for i in range(5):
              self.letter_frequency_pos[i] = Counter(word[i] for word in self.word_list)
  \<close>

  \<open>word[i]\<close> raises \<open>IndexError\<close> for a word of at most \<open>i\<close> letters.
\<close>

fun column :: "nat \<Rightarrow> string list \<Rightarrow> py_error + string" where
  "column i [] = Inr []"
| "column i (word # rest) =
     (if i < length word
      then (case column i rest of Inl e \<Rightarrow> Inl e | Inr cs \<Rightarrow> Inr (word ! i # cs))
      else Inl IndexError)"

fun pos_loop :: "nat list \<Rightarrow> string list \<Rightarrow> (nat \<times> (char \<times> nat) list) list \<Rightarrow>
    py_error + (nat \<times> (char \<times> nat) list) list" where
  "pos_loop [] ws freqs = Inr freqs"
| "pos_loop (i # rest) ws freqs =
     (case column i ws of
        Inl e \<Rightarrow> Inl e
      | Inr cs \<Rightarrow> pos_loop rest ws (AList.update i (Counter cs) freqs))"

definition update_frequencies :: "bool \<Rightarrow> bool \<Rightarrow> guesser \<Rightarrow> py_error + guesser" where
  "update_frequencies abs_arg pos_arg self =
     (if word_list self = [] then Inr self
      else
        let self1 = (if abs_arg
                     then self\<lparr>letter_frequency_abs := Counter (concat (word_list self))\<rparr>
                     else self)
        in if pos_arg
           then (case pos_loop [0..<5] (word_list self1) [] of
                   Inl e \<Rightarrow> Inl e
                 | Inr freqs \<Rightarrow> Inr (self1\<lparr>letter_frequency_pos := freqs\<rparr>))
           else Inr self1)"

subsection \<open>\<open>frequency_guess_non_word\<close>\<close>

text \<open>
  \<^verbatim>\<open>
  def frequency_guess_non_word(self):
      letters_by_position = []
      for i in range(5):
          i_freqs = self.letter_frequency_pos[i]
          letters_by_position.append([k for k, v in i_freqs.most_common(3)])
      candidates = []
      for combination in product(*letters_by_position):
          if len(set(combination)) == 5:
              candidates.append(''.join(combination))
      if not candidates:
          return ''.join(k for k,v in self.letter_frequency_abs.most_common(5))
      guess, _ = self.get_max_entropy_word(candidates, self.word_list)
      return guess
  \<close>
\<close>

fun letters_loop :: "nat list \<Rightarrow> (nat \<times> (char \<times> nat) list) list \<Rightarrow> string list \<Rightarrow>
    py_error + string list" where
  "letters_loop [] freqs letters_by_position = Inr letters_by_position"
| "letters_loop (i # rest) freqs letters_by_position =
     (case map_of freqs i of
        None \<Rightarrow> Inl KeyError
      | Some i_freqs \<Rightarrow>
          letters_loop rest freqs (letters_by_position @ [map fst (most_common 3 i_freqs)]))"

definition frequency_guess_non_word :: "guesser \<Rightarrow> py_error + string \<times> guesser" where
  "frequency_guess_non_word self =
     (case letters_loop [0..<5] (letter_frequency_pos self) [] of
        Inl e \<Rightarrow> Inl e
      | Inr letters_by_position \<Rightarrow>
          let candidates = filter (\<lambda>combination. length (remdups combination) = 5)
                             (product_lists letters_by_position)
          in if candidates = []
             then Inr (map fst (most_common 5 (letter_frequency_abs self)), self)
             else (case get_max_entropy_word (u_pattern_cache self) candidates (word_list self) of
                     (cache, Inl e) \<Rightarrow> Inl e
                   | (cache, Inr (guess, entropy)) \<Rightarrow> Inr (guess, self\<lparr>u_pattern_cache := cache\<rparr>)))"

subsection \<open>\<open>get_shortcut_words\<close>\<close>

text \<open>
  \<^verbatim>\<open>
  def get_shortcut_words(self):
      unique_letters = set(self.letter_frequency_abs.keys())
      green_letters = set(self.green_pos.values())
      yellow_letters = set(self.yellow.keys())
      letters_left = unique_letters - green_letters - yellow_letters
      if len(letters_left) > 5:
          return []
      shortcut_word = ''.join(sorted(letters_left, key=lambda x: random()))
      letters_left = list(letters_left)
      if len(shortcut_word) < 5:
          shortcut_word += ''.join(
              np.random.choice(letters_left, size = 5 - len(shortcut_word)).tolist())
      return [shortcut_word]
  \<close>

  \<open>np.random.choice\<close> raises \<open>ValueError\<close> on an empty population.
\<close>

definition get_shortcut_words :: "world \<Rightarrow> guesser \<Rightarrow> py_error + string list \<times> guesser" where
  "get_shortcut_words w self =
     (case green_pos_attr self of
        Absent \<Rightarrow> Inl AttributeError
      | Present green_pos \<Rightarrow>
     (case yellow_attr self of
        Absent \<Rightarrow> Inl AttributeError
      | Present yellow \<Rightarrow>
          let letters_left = set (map fst (letter_frequency_abs self))
                               - set (map snd green_pos) - set (map fst yellow)
          in if card letters_left > 5 then Inr ([], self)
             else
               let shortcut_word = shuffle w (rng_state self) (set_order w letters_left);
                   self1 = self\<lparr>rng_state := rng_state self + 1\<rparr>;
                   letters = set_order w letters_left
               in if length shortcut_word < 5
                  then (if letters = [] then Inl ValueError
                        else Inr ([shortcut_word
                                     @ choice w (rng_state self1) letters (5 - length shortcut_word)],
                                  self1\<lparr>rng_state := rng_state self1 + 1\<rparr>))
                  else Inr ([shortcut_word], self1)))"

subsection \<open>\<open>_get_guess\<close>\<close>

text \<open>
  \<^verbatim>\<open>
  def _get_guess(self):
      self.update_frequencies()
      remaining_words = len(self.word_list)
      if remaining_words == 0:
          return ""
      if remaining_words == 1:
          return self.word_list[0]
      if remaining_words < 50:
          shortcut_words = []
          if remaining_words > 2 and len(self._tried) < 5:
              shortcut_words = self.get_shortcut_words()
          guess, entropy = self.get_max_entropy_word(
              sources=self.word_list + shortcut_words,
              targets=self.word_list)
          max_possible_entropy = np.log2(remaining_words)
          if (max_possible_entropy - entropy < 0.5
              or len(self._tried) >= 5):
              return guess
      return self.frequency_guess_non_word()
  \<close>
\<close>

text \<open>\<open>max_possible_entropy - entropy < 0.5\<close>\<close>

fun close_enough :: "real \<Rightarrow> pyfloat \<Rightarrow> bool" where
  "close_enough max_possible_entropy NegInf = False"
| "close_enough max_possible_entropy (Fin entropy) = (max_possible_entropy - entropy < 1 / 2)"

definition u_get_guess :: "world \<Rightarrow> guesser \<Rightarrow> py_error + string \<times> guesser" where
  "u_get_guess w self0 =
     (case update_frequencies True True self0 of
        Inl e \<Rightarrow> Inl e
      | Inr self \<Rightarrow>
          let remaining_words = length (word_list self)
          in if remaining_words = 0 then Inr ([], self)
             else if remaining_words = 1 then Inr (word_list self ! 0, self)
             else if remaining_words < 50
             then (case (if remaining_words > 2 \<and> length (u_tried self) < 5
                         then get_shortcut_words w self else Inr ([], self)) of
                     Inl e \<Rightarrow> Inl e
                   | Inr (shortcut_words, self1) \<Rightarrow>
                       (case get_max_entropy_word (u_pattern_cache self1)
                               (word_list self1 @ shortcut_words) (word_list self1) of
                          (cache, Inl e) \<Rightarrow> Inl e
                        | (cache, Inr (guess, entropy)) \<Rightarrow>
                            if close_enough (log 2 (real remaining_words)) entropy
                               \<or> length (u_tried self1) \<ge> 5
                            then Inr (guess, self1\<lparr>u_pattern_cache := cache\<rparr>)
                            else frequency_guess_non_word (self1\<lparr>u_pattern_cache := cache\<rparr>)))
             else frequency_guess_non_word self)"

subsection \<open>\<open>subset_trie\<close>\<close>

text \<open>
  \<^verbatim>\<open>
  def subset_trie(self, result):
      if not self._tried:
          return
      if len(result) != 5:
          print("[!] len(result) > 5. Skipping.")
          return
      guess = self._tried[-1]
      self.yellow = Counter()
      self.gray = set()
      self.green_pos = {}
      self.gray_pos = {}
      for i, letter in enumerate(guess):
          if result[i] == "+":
              self.gray.add(letter)
              self.gray_pos[i] = letter
          elif result[i] == "-":
              self.yellow.update([letter])
              self.gray_pos[i] = letter
          elif result[i].isalpha():
              self.green_pos[i] = letter
      parent_trie = self.word_trie if hasattr(self, 'word_trie') and self.word_trie else self._word_trie
      self.word_trie = parent_trie.filter_words(
          gray=self.gray, gray_pos=self.gray_pos, yellow=self.yellow,
          green_pos=self.green_pos, guess=guess)
      self.word_list = self.word_trie.list
  \<close>

  \<open>str.isalpha\<close> on one character, the characters read as code points below 256.
\<close>

definition isalpha :: "char \<Rightarrow> bool" where
  "isalpha c =
     (let n = (of_char c :: nat)
      in (65 \<le> n \<and> n \<le> 90) \<or> (97 \<le> n \<and> n \<le> 122) \<or> n = 170 \<or> n = 181 \<or> n = 186
         \<or> (192 \<le> n \<and> n \<le> 214) \<or> (216 \<le> n \<and> n \<le> 246) \<or> 248 \<le> n)"

fun feedback_loop :: "(nat \<times> char) list \<Rightarrow> string \<Rightarrow>
    (char \<times> int) list \<times> char set \<times> (nat \<times> char) list \<times> (nat \<times> char) list \<Rightarrow>
    py_error + (char \<times> int) list \<times> char set \<times> (nat \<times> char) list \<times> (nat \<times> char) list" where
  "feedback_loop [] result acc = Inr acc"
| "feedback_loop ((i, letter) # rest) result (yellow, gray, green_pos, gray_pos) =
     (if i < length result
      then (if result ! i = CHR ''+''
            then feedback_loop rest result
                   (yellow, insert letter gray, green_pos, AList.update i letter gray_pos)
            else if result ! i = CHR ''-''
            then feedback_loop rest result
                   (AList.update letter (yget yellow letter + 1) yellow, gray, green_pos,
                    AList.update i letter gray_pos)
            else if isalpha (result ! i)
            then feedback_loop rest result
                   (yellow, gray, AList.update i letter green_pos, gray_pos)
            else feedback_loop rest result (yellow, gray, green_pos, gray_pos))
      else Inl IndexError)"

definition subset_trie :: "guesser \<Rightarrow> string \<Rightarrow> py_error + guesser" where
  "subset_trie self result =
     (if u_tried self = [] then Inr self
      else if length result \<noteq> 5 then Inr self
      else
        let guess = last (u_tried self)
        in case feedback_loop (enumerate 0 guess) result ([], {}, [], []) of
             Inl e \<Rightarrow> Inl e
           | Inr (yellow, gray, green_pos, gray_pos) \<Rightarrow>
               let parent_trie = (case word_trie_attr self of
                                    Present (Some t) \<Rightarrow> t
                                  | _ \<Rightarrow> u_word_trie self);
                   new_trie = filter_words parent_trie gray gray_pos yellow green_pos guess
               in Inr (self\<lparr>yellow_attr := Present yellow, gray_attr := Present gray,
                             green_pos_attr := Present green_pos, gray_pos_attr := Present gray_pos,
                             word_trie_attr := Present (Some new_trie),
                             word_list := list_t new_trie\<rparr>))"

subsection \<open>\<open>__init__\<close> and \<open>restart_game\<close>\<close>

text \<open>
  \<^verbatim>\<open>
  def __init__(self, manual):
      with open("wordlist.yaml") as f:
          self._word_list = yaml.load(f, Loader=yaml.FullLoader)
      self._manual = manual
      self.console = Console()
      self._tried = []
      self._word_trie = Trie()
      for word in self._word_list:
          self._word_trie.insert(word)
      self._pattern_cache = {}
      self.letter_frequency_abs = Counter()
      self.letter_frequency_pos = {}
      self._tried_letter = set()
      self.word_list = self._word_list
      self.update_frequencies()
      self.opening = self.frequency_guess_non_word()

  def restart_game(self):
      self._tried = []
      self._tried_letter = set(self.opening)
      self.word_list = self._word_list
      self.word_trie = None
  \<close>

  The content of \<open>wordlist.yaml\<close> is the argument \<open>wordlist\<close>. The attribute \<open>opening\<close> is the field
  \<open>opening_word\<close>, which the record has from the start; no method reads it before
  \<open>__init__\<close> assigns it.
\<close>

definition init :: "string list \<Rightarrow> string \<Rightarrow> py_error + guesser" where
  "init wordlist manual =
     (let self = \<lparr>u_word_list = wordlist, u_manual = manual, u_tried = [],
                   u_word_trie = build wordlist, u_pattern_cache = Map.empty,
                   letter_frequency_abs = [], letter_frequency_pos = [],
                   u_tried_letter = {}, word_list = wordlist, opening_word = [],
                   word_trie_attr = Absent, yellow_attr = Absent, gray_attr = Absent,
                   green_pos_attr = Absent, gray_pos_attr = Absent, rng_state = 0\<rparr>
      in case update_frequencies True True self of
           Inl e \<Rightarrow> Inl e
         | Inr self1 \<Rightarrow>
             (case frequency_guess_non_word self1 of
                Inl e \<Rightarrow> Inl e
              | Inr (guess, self2) \<Rightarrow> Inr (self2\<lparr>opening_word := guess\<rparr>)))"

definition restart_game :: "guesser \<Rightarrow> guesser" where
  "restart_game self =
     self\<lparr>u_tried := [], u_tried_letter := set (opening_word self),
          word_list := u_word_list self, word_trie_attr := Present None\<rparr>"

subsection \<open>\<open>get_guess\<close>\<close>

text \<open>
  \<^verbatim>\<open>
  def get_guess(self, result):
      if self._manual == "manual":
          return self.console.input("Your guess:\n")
      if (self._tried and len(result) == 5):
          self.subset_trie(result)
      if not self._tried:
          guess = self.opening
      else:
          guess = self._get_guess()
      # Avoid crashes
      while (guess in self._tried
             or len(guess) != 5):
          guess = np.random.choice(
              list(''.join(self._tried)),
              size=5)
          guess = ''.join(guess)
      self._tried.append(guess)
      self.console.print(guess)
      return guess
  \<close>

  The \<open>while\<close> loop may run forever: it is a partial function, \<open>None\<close> when it does not
  return.
\<close>

partial_function (option) avoid_crashes ::
    "world \<Rightarrow> string list \<Rightarrow> string \<Rightarrow> nat \<Rightarrow> (py_error + string \<times> nat) option" where
  "avoid_crashes w tried guess n =
     (if guess \<in> set tried \<or> length guess \<noteq> 5
      then (if concat tried = [] then Some (Inl ValueError)
            else avoid_crashes w tried (choice w n (concat tried) 5) (n + 1))
      else Some (Inr (guess, n)))"

definition get_guess :: "world \<Rightarrow> guesser \<Rightarrow> string \<Rightarrow> (py_error + string \<times> guesser) option" where
  "get_guess w self result =
     (if u_manual self = ''manual'' then Some (Inr (console_input w, self))
      else
        case (if u_tried self \<noteq> [] \<and> length result = 5
              then subset_trie self result else Inr self) of
          Inl e \<Rightarrow> Some (Inl e)
        | Inr self1 \<Rightarrow>
            (case (if u_tried self1 = [] then Inr (opening_word self1, self1)
                   else u_get_guess w self1) of
               Inl e \<Rightarrow> Some (Inl e)
             | Inr (guess, self2) \<Rightarrow>
                 (case avoid_crashes w (u_tried self2) guess (rng_state self2) of
                    None \<Rightarrow> None
                  | Some (Inl e) \<Rightarrow> Some (Inl e)
                  | Some (Inr (guess1, n)) \<Rightarrow>
                      Some (Inr (guess1, self2\<lparr>u_tried := u_tried self2 @ [guess1],
                                                 rng_state := n\<rparr>)))))"

subsection \<open>An environment for example runs\<close>

text \<open>
  A set is iterated in the order of the code points, shuffling rotates the list, and a draw
  walks through the population from the generator state on.
\<close>

definition example_world :: world where
  "example_world =
     \<lparr>console_input = [],
      set_order = (\<lambda>s. filter (\<lambda>c. c \<in> s) (map char_of [0..<256::nat])),
      shuffle = (\<lambda>n xs. rotate n xs),
      choice = (\<lambda>n a size. map (\<lambda>i. a ! ((n + i) mod length a)) [0..<size])\<rparr>"

section \<open>Properties of the feedback encoder\<close>

lemma get_matches_loop_sum:
  "\<forall>i\<in>set js. i < length source \<Longrightarrow>
   get_matches_loop source target js score =
     Inr (score + (\<Sum>i\<leftarrow>js. spec_digit source target i * 3 ^ i))"
  by (induction js arbitrary: score) (auto simp: spec_digit_def)

lemma get_matches_sum:
  assumes "length target \<le> length source"
  shows "get_matches source target =
           Inr (\<Sum>i<length target. spec_digit source target i * 3 ^ i)"
proof -
  have "get_matches source target =
          Inr (0 + (\<Sum>i\<leftarrow>[0..<length target]. spec_digit source target i * 3 ^ i))"
    unfolding get_matches_def using assms by (intro get_matches_loop_sum) auto
  also have "(\<Sum>i\<leftarrow>[0..<length target]. spec_digit source target i * 3 ^ i) =
               (\<Sum>i<length target. spec_digit source target i * 3 ^ i)"
    by (simp add: sum_list_sum_nth atLeast0LessThan)
  finally show ?thesis by simp
qed

lemma spec_digit_le: "spec_digit guess target i \<le> 2"
  by (simp add: spec_digit_def)

lemma base3_bound: "(\<Sum>i<n. d i * 3 ^ i) < (3::nat) ^ n" if "\<And>i. d i \<le> 2"
proof (induction n)
  case 0
  show ?case by simp
next
  case (Suc n)
  have h: "d n * 3 ^ n \<le> 2 * 3 ^ n"
    by (rule mult_le_mono1) (rule that)
  have "(\<Sum>i<Suc n. d i * 3 ^ i) = (\<Sum>i<n. d i * 3 ^ i) + d n * 3 ^ n"
    by simp
  also have "\<dots> < 3 ^ n + 2 * 3 ^ n"
    using Suc h by linarith
  also have "\<dots> = 3 ^ Suc n"
    by simp
  finally show ?case .
qed

lemma base3_all_two: "(\<Sum>i<n. 2 * 3 ^ i) + 1 = (3::nat) ^ n"
  by (induction n) simp_all

lemma spec_digit_same: "i < length w \<Longrightarrow> spec_digit w w i = 2"
  by (simp add: spec_digit_def)

text \<open>
  Claim C2. For words of length 5, \<open>get_matches guess target\<close> returns the base-3 number
  whose digit at position \<open>i\<close> is 2 on an exact match, 1 when \<open>guess[i]\<close> occurs
  somewhere in \<open>target\<close>, and 0 otherwise; the value lies in \<open>[0, 3^5 - 1]\<close>, and a word
  matched against itself gives the all-exact code \<open>3^5 - 1 = 242\<close>.
\<close>

theorem get_matches_base3:
  assumes "length guess = 5" and "length target = 5"
  shows "get_matches guess target = Inr (\<Sum>i<5. spec_digit guess target i * 3 ^ i)
         \<and> (\<Sum>i<5. spec_digit guess target i * 3 ^ i) \<le> 3 ^ 5 - 1
         \<and> get_matches guess guess = Inr (3 ^ 5 - 1)
         \<and> (\<Sum>i<5. 2 * 3 ^ i) = (3::nat) ^ 5 - 1"
proof -
  have a: "get_matches guess target = Inr (\<Sum>i<5. spec_digit guess target i * 3 ^ i)"
    using get_matches_sum [of target guess] assms by simp
  have "(\<Sum>i<5. spec_digit guess target i * 3 ^ i) < 3 ^ 5"
    by (rule base3_bound) (rule spec_digit_le)
  then have b: "(\<Sum>i<5. spec_digit guess target i * 3 ^ i) \<le> 3 ^ 5 - 1" by simp
  have d: "(\<Sum>i<5. 2 * 3 ^ i) = (3::nat) ^ 5 - 1"
    using base3_all_two [of 5] by simp
  have "(\<Sum>i<5. spec_digit guess guess i * 3 ^ i) = (\<Sum>i<5. 2 * 3 ^ i)"
    using assms(1) by (intro sum.cong) (simp_all add: spec_digit_same)
  with d have c: "get_matches guess guess = Inr (3 ^ 5 - 1)"
    using get_matches_sum [of guess guess] assms(1) by simp
  from a b c d show ?thesis by simp
qed

theorem get_matches_base3_witness:
  "get_matches ''crane'' ''slate'' = Inr 180 \<and> get_matches ''crane'' ''crane'' = Inr 242"
proof -
  have "length ''crane'' = 5" and "length ''slate'' = 5" by simp_all
  from get_matches_base3 [OF this] have "get_matches ''crane'' ''slate'' =
      Inr (\<Sum>i<5. spec_digit ''crane'' ''slate'' i * 3 ^ i)"
    and "get_matches ''crane'' ''crane'' = Inr (3 ^ 5 - 1)"
    by simp_all
  moreover have "(\<Sum>i<5. spec_digit ''crane'' ''slate'' i * 3 ^ i) = 180"
    by code_simp
  ultimately show ?thesis by simp
qed

section \<open>Properties of \<open>Trie.insert\<close>\<close>

lemma contains_empty [simp]: "contains (Node False []) v = False"
  by (cases v) simp_all

lemma contains_insert_node:
  "contains (insert_node w n) v \<longleftrightarrow> v = w \<or> contains n v"
proof (induction w arbitrary: n v)
  case Nil
  then show ?case by (cases n; cases v) auto
next
  case (Cons c w)
  then show ?case
    by (cases n; cases v) (auto simp: update_conv' split: option.splits)
qed

lemma wf_node_insert_node: "wf_node n \<Longrightarrow> wf_node (insert_node w n)"
proof (induction w arbitrary: n)
  case Nil
  then show ?case by (cases n) auto
next
  case (Cons c w)
  obtain e cs where n: "n = Node e cs" by (cases n)
  let ?child = "case map_of cs c of None \<Rightarrow> Node False [] | Some child \<Rightarrow> child"
  have "wf_node ?child"
    using Cons.prems n by (auto simp: list_all_iff split: option.splits dest!: map_of_SomeD)
  then have "wf_node (insert_node w ?child)" by (rule Cons.IH)
  moreover have "set (AList.update c v cs) \<subseteq> insert (c, v) (set cs)" for v
    by (induction cs) auto
  moreover have "\<forall>(k, m)\<in>set cs. wf_node m"
    using Cons.prems n by (simp add: list_all_iff)
  ultimately have "\<forall>(k, m)\<in>set (AList.update c (insert_node w ?child) cs). wf_node m"
    by blast
  then show ?case
    using Cons.prems n by (simp add: list_all_iff distinct_update)
qed

lemma words_of_contains: "wf_node n \<Longrightarrow> w \<in> set (words_of n) \<longleftrightarrow> contains n w"
proof (induction w arbitrary: n)
  case Nil
  then show ?case by (cases n) auto
next
  case (Cons c w)
  obtain e cs where n: "n = Node e cs" by (cases n)
  have d: "distinct (map fst cs)" and wf: "\<And>k m. (k, m) \<in> set cs \<Longrightarrow> wf_node m"
    using Cons.prems n by (auto simp: list_all_iff)
  show ?case
  proof (cases "map_of cs c")
    case None
    then have "\<And>m. (c, m) \<notin> set cs" by (metis map_of_eq_None_iff fst_conv image_eqI)
    with None n show ?thesis by auto
  next
    case (Some m)
    then have m: "(c, m) \<in> set cs" by (rule map_of_SomeD)
    have uniq: "\<And>m'. (c, m') \<in> set cs \<Longrightarrow> m' = m"
      using d Some by (metis map_of_is_SomeI option.inject)
    have "c # w \<in> set (words_of n) \<longleftrightarrow> (\<exists>m'. (c, m') \<in> set cs \<and> w \<in> set (words_of m'))"
      unfolding n by (auto simp: image_iff)
    also have "\<dots> \<longleftrightarrow> w \<in> set (words_of m)"
      using m uniq by blast
    finally have "c # w \<in> set (words_of n) \<longleftrightarrow> w \<in> set (words_of m)" .
    with Cons.IH [OF wf [OF m]] Some n show ?thesis by simp
  qed
qed

lemma distinct_words_of: "wf_node n \<Longrightarrow> distinct (words_of n)"
proof (induction n rule: words_of.induct)
  case (1 e cs)
  have d: "distinct (map fst cs)" and wf: "\<And>k m. (k, m) \<in> set cs \<Longrightarrow> wf_node m"
    using 1 by (auto simp: list_all_iff)
  have ih: "\<And>k m. (k, m) \<in> set cs \<Longrightarrow> distinct (words_of m)"
    using 1 wf by blast
  have "distinct (concat (map (\<lambda>(c, n). map ((#) c) (words_of n)) ds))"
    if "set ds \<subseteq> set cs" "distinct (map fst ds)" for ds
    using that
  proof (induction ds)
    case Nil
    then show ?case by simp
  next
    case (Cons a ds)
    obtain k m where a: "a = (k, m)" by (cases a)
    have "distinct (map ((#) k) (words_of m))"
      using ih [of k m] Cons.prems a by (simp add: distinct_map)
    moreover have "set (map ((#) k) (words_of m)) \<inter>
        set (concat (map (\<lambda>(c, n). map ((#) c) (words_of n)) ds)) = {}"
      using Cons.prems a by (auto simp: image_iff)
    ultimately show ?case using Cons a by simp
  qed
  from this [of cs] d show ?case by auto
qed

lemma root_build: "root_t (fold insert_trie ws T) = fold insert_node ws (root_t T)"
  by (induction ws arbitrary: T) (simp_all add: insert_trie_def)

lemma list_build: "list_t (fold insert_trie ws T) = list_t T @ ws"
  by (induction ws arbitrary: T) (simp_all add: insert_trie_def)

lemma wf_fold_insert: "wf_node n \<Longrightarrow> wf_node (fold insert_node ws n)"
  by (induction ws arbitrary: n) (simp_all add: wf_node_insert_node)

lemma contains_fold_insert:
  "contains (fold insert_node ws n) v \<longleftrightarrow> v \<in> set ws \<or> contains n v"
  by (induction ws arbitrary: n) (auto simp: contains_insert_node)

lemma insert_node_idem: "insert_node w (insert_node w n) = insert_node w n"
proof (induction w arbitrary: n)
  case Nil
  then show ?case by (cases n) auto
next
  case (Cons c w)
  then show ?case by (cases n) (simp add: update_conv')
qed

text \<open>
  Claim C6, as the code has it. Building a trie from a word list (duplicates allowed)
  gives a node structure whose words are exactly the set of input words, each once, and
  a second insertion of a word leaves the node structure as it is. The attribute
  \<open>list\<close>, which is what the solver reads a trie's words from, is the list of all
  insertions in order: it holds a word once for every time it was inserted, and every
  insertion makes it longer.
\<close>

theorem build_round_trip:
  "set (words_of (root_t (build ws))) = set ws
   \<and> distinct (words_of (root_t (build ws)))
   \<and> list_t (build ws) = ws
   \<and> root_t (insert_trie w (insert_trie w T)) = root_t (insert_trie w T)
   \<and> list_t (insert_trie w (insert_trie w T)) = list_t (insert_trie w T) @ [w]"
proof -
  have wf: "wf_node (root_t (build ws))"
    by (simp add: build_def root_build Trie_def wf_fold_insert)
  have "v \<in> set (words_of (root_t (build ws))) \<longleftrightarrow> v \<in> set ws" for v
    using words_of_contains [OF wf, of v]
    by (cases v) (simp_all add: build_def root_build Trie_def contains_fold_insert)
  then have "set (words_of (root_t (build ws))) = set ws" by blast
  moreover have "distinct (words_of (root_t (build ws)))"
    using wf by (rule distinct_words_of)
  moreover have "list_t (build ws) = ws"
    by (simp add: build_def list_build Trie_def)
  moreover have "root_t (insert_trie w (insert_trie w T)) = root_t (insert_trie w T)"
    by (simp add: insert_trie_def insert_node_idem)
  moreover have "list_t (insert_trie w (insert_trie w T)) = list_t (insert_trie w T) @ [w]"
    by (simp add: insert_trie_def)
  ultimately show ?thesis by blast
qed

text \<open>
  The claim as the specification states it fails on the word list of the trie: after
  inserting \<open>apple\<close> twice the list holds it twice, and the trie is not the one after a
  single insertion.
\<close>

theorem build_duplicate_counterexample:
  "list_t (build [''apple'', ''apple'']) = [''apple'', ''apple'']
   \<and> \<not> distinct (list_t (build [''apple'', ''apple'']))
   \<and> insert_trie ''apple'' (insert_trie ''apple'' Trie) \<noteq> insert_trie ''apple'' Trie"
  by (simp add: build_def insert_trie_def Trie_def)

section \<open>Properties of \<open>Trie.filter_words\<close>\<close>

subsection \<open>The loop state of \<open>dfs\<close>\<close>

lemma item_words_simps [simp]:
  "item_words [] = []"
  "item_words ((c, n) # cs) = map ((#) c) (words_of n) @ item_words cs"
  "item_words (cs @ ds) = item_words cs @ item_words ds"
  by (simp_all add: item_words_def)

lemma words_of_Node: "words_of (Node e cs) = (if e then [[]] else []) @ item_words cs"
  by (simp add: item_words_def)

lemma update_fresh: "c \<notin> fst ` set xs \<Longrightarrow> AList.update c v xs = xs @ [(c, v)]"
  by (induction xs) auto

lemma prune_items_keys: "(k, m) \<in> set (prune_items cl cs cw y) \<Longrightarrow> k \<in> fst ` set cs"
  by (induction cs) (auto split: option.splits if_splits)

lemma dfs_prune:
  "wf_node n \<Longrightarrow>
   dfs cl n cw y lst =
     (case prune cl n cw y of
        None \<Rightarrow> (False, Node False [], lst)
      | Some k \<Rightarrow> (True, k, lst @ map ((@) cw) (words_of k)))"
  and "distinct (map fst cs) \<Longrightarrow> list_all (\<lambda>(c, n). wf_node n) cs \<Longrightarrow>
   fst ` set cs \<inter> fst ` set (items (fst (snd acc))) = {} \<Longrightarrow>
   dfs_items cl cs cw y acc =
     (fst acc \<or> prune_items cl cs cw y \<noteq> [],
      Node (eow (fst (snd acc))) (items (fst (snd acc)) @ prune_items cl cs cw y),
      snd (snd acc) @ map ((@) cw) (item_words (prune_items cl cs cw y)))"
proof (induction cl n cw y lst and cl cs cw y acc rule: dfs_dfs_items.induct)
  case (1 cl e cs current_word yellow lst)
  show ?case
  proof (cases "green_fails cl current_word \<or> gray_fails cl current_word \<or> e")
    case True
    then show ?thesis by (auto simp: words_of_Node simp del: words_of.simps)
  next
    case False
    then have "dfs_items cl cs current_word yellow (False, Node False [], lst) =
      (prune_items cl cs current_word yellow \<noteq> [],
       Node False (prune_items cl cs current_word yellow),
       lst @ map ((@) current_word) (item_words (prune_items cl cs current_word yellow)))"
      using 1 by simp
    with False show ?thesis
      by (simp add: words_of_Node del: words_of.simps split: list.splits)
  qed
next
  case (2 cl current_word yellow acc)
  show ?case by simp
next
  case (3 cl char next_node rest current_word yellow valid_child new_node lst)
  have d: "distinct (map fst rest)" "char \<notin> fst ` set rest"
    and wf: "wf_node next_node" "list_all (\<lambda>(c, n). wf_node n) rest"
    and fresh: "char \<notin> fst ` set (items new_node)"
      "fst ` set rest \<inter> fst ` set (items new_node) = {}"
    using 3(5-7) by auto
  show ?case
  proof (cases "skip_gray cl yellow char")
    case True
    with 3(1) d wf fresh show ?thesis by simp
  next
    case False
    show ?thesis
    proof (cases "prune cl next_node (current_word @ [char]) (update_yellow yellow char)")
      case None
      then have "dfs cl next_node (current_word @ [char]) (update_yellow yellow char) lst =
          (False, Node False [], lst)"
        using 3(2) [OF False] wf by simp
      with 3(4) [OF False this [symmetric]] False None d wf fresh show ?thesis by simp
    next
      case (Some k)
      then have r: "dfs cl next_node (current_word @ [char]) (update_yellow yellow char) lst =
          (True, k, lst @ map ((@) (current_word @ [char])) (words_of k))"
        using 3(2) [OF False] wf by simp
      have "fst ` set rest \<inter> fst ` set (items new_node @ [(char, k)]) = {}"
        using d fresh by auto
      with 3(3) [OF False r [symmetric]] False Some d wf fresh r show ?thesis
        by (simp add: update_fresh)
    qed
  qed
qed

subsection \<open>The words \<open>dfs\<close> keeps\<close>

lemma filter_concat_items:
  "filter P (concat (map (\<lambda>(c, n). map ((#) c) (f n)) cs)) =
   concat (map (\<lambda>(c, n). map ((#) c) (filter (\<lambda>s. P (c # s)) (f n))) cs)"
  by (induction cs) (auto simp: filter_map comp_def)

lemma prune_words:
  "(case prune cl n cw y of None \<Rightarrow> [] | Some k \<Rightarrow> words_of k) =
     filter (accept cl cw y) (paths1 n)"
  and "item_words (prune_items cl cs cw y) =
     concat (map (\<lambda>(c, n). map ((#) c)
       (filter (\<lambda>s. \<not> skip_gray cl y c \<and> accept cl (cw @ [c]) (update_yellow y c) s) (paths1 n))) cs)"
proof (induction cl n cw y and cl cs cw y rule: prune_prune_items.induct)
  case (1 cl e cs cw y)
  show ?case
  proof (cases "green_fails cl cw \<or> gray_fails cl cw")
    case True
    then have "filter (accept cl cw y) ps = []" for ps
      by (induction ps) (auto elim: accept.elims)
    with True show ?thesis by simp
  next
    case ok: False
    show ?thesis
    proof (cases e)
      case True
      with ok show ?thesis by auto
    next
      case False
      have "filter (accept cl cw y) (paths1 (Node e cs)) =
        concat (map (\<lambda>(c, n). map ((#) c)
          (filter (\<lambda>s. \<not> skip_gray cl y c \<and> accept cl (cw @ [c]) (update_yellow y c) s) (paths1 n))) cs)"
        using False ok by (simp add: filter_concat_items)
      also have "\<dots> = item_words (prune_items cl cs cw y)"
        using 1 ok False by simp
      finally show ?thesis
        using ok False by (simp add: words_of_Node del: words_of.simps split: list.splits)
    qed
  qed
next
  case (2 cl cw y)
  show ?case by simp
next
  case (3 cl c n rest cw y)
  show ?case
  proof (cases "skip_gray cl y c")
    case True
    with 3 show ?thesis by simp
  next
    case False
    with 3 show ?thesis by (simp split: option.splits)
  qed
qed

lemma tight_words: "tight n \<Longrightarrow> paths1 n = words_of n \<and> words_of n \<noteq> []"
proof (induction n rule: tight.induct)
  case (1 e cs)
  show ?case
  proof (cases e)
    case True
    with 1 show ?thesis by simp
  next
    case False
    with 1 have ih: "\<And>c n. (c, n) \<in> set cs \<Longrightarrow> paths1 n = words_of n \<and> words_of n \<noteq> []"
      and ne: "cs \<noteq> []"
      by (auto simp: list_all_iff)
    have eq: "concat (map (\<lambda>(c, n). map ((#) c) (paths1 n)) cs) =
        concat (map (\<lambda>(c, n). map ((#) c) (words_of n)) cs)"
      using ih by (intro arg_cong [where f = concat] map_cong) auto
    obtain c n ds where cs: "cs = (c, n) # ds"
      using ne by (cases cs) auto
    have "paths1 (Node e cs) = words_of (Node e cs)"
      using False eq by simp
    moreover have "words_of n \<noteq> []"
      using ih [of c n] cs by simp
    then have "words_of (Node e cs) \<noteq> []"
      unfolding cs by simp
    ultimately show ?thesis by blast
  qed
qed

lemma prune_tight:
  "prune cl n cw y = Some k \<Longrightarrow> tight k"
  and "list_all (\<lambda>(c, k). tight k) (prune_items cl cs cw y)"
proof (induction cl n cw y and cl cs cw y arbitrary: k rule: prune_prune_items.induct)
  case (1 cl e cs cw y)
  then show ?case by (auto split: if_splits list.splits)
next
  case (2 cl cw y)
  show ?case by simp
next
  case (3 cl c n rest cw y)
  then show ?case by (auto split: option.splits)
qed

lemma prune_wf:
  "wf_node n \<Longrightarrow> prune cl n cw y = Some k \<Longrightarrow> wf_node k"
  and "distinct (map fst cs) \<Longrightarrow> list_all (\<lambda>(c, n). wf_node n) cs \<Longrightarrow>
       distinct (map fst (prune_items cl cs cw y)) \<and>
       list_all (\<lambda>(c, n). wf_node n) (prune_items cl cs cw y)"
proof (induction cl n cw y and cl cs cw y arbitrary: k rule: prune_prune_items.induct)
  case (1 cl e cs cw y)
  then show ?case by (auto split: if_splits list.splits)
next
  case (2 cl cw y)
  show ?case by simp
next
  case (3 cl c n rest cw y)
  then show ?case by (auto split: option.splits dest: prune_items_keys)
qed

subsection \<open>\<open>filter_words\<close> as a filter on words\<close>

lemma paths1_subset: "set (paths1 n) \<subseteq> set (words_of n)"
proof (induction n rule: paths1.induct)
  case (1 e cs)
  show ?case
  proof (cases e)
    case True
    then show ?thesis by simp
  next
    case False
    with 1 have ih: "\<And>c n. (c, n) \<in> set cs \<Longrightarrow> set (paths1 n) \<subseteq> set (words_of n)"
      by blast
    show ?thesis
    proof
      fix w assume "w \<in> set (paths1 (Node e cs))"
      then obtain c n s where "(c, n) \<in> set cs" "s \<in> set (paths1 n)" "w = c # s"
        using False by auto
      with ih [of c n] have "(c, n) \<in> set cs" "s \<in> set (words_of n)" "w = c # s"
        by auto
      then show "w \<in> set (words_of (Node e cs))"
        by force
    qed
  qed
qed

lemma map_append_Nil [simp]: "map ((@) []) xs = xs"
  by (induction xs) simp_all

lemma filter_words_prune:
  assumes "wf_node (root_t T)"
  shows "filter_words T gray gray_pos yellow green_pos guess =
    (case prune (mk_closure gray gray_pos green_pos guess) (root_t T) [] yellow of
       None \<Rightarrow> \<lparr>root_t = Node False [], list_t = []\<rparr>
     | Some k \<Rightarrow> \<lparr>root_t = k, list_t = words_of k\<rparr>)"
  using dfs_prune(1) [OF assms, of "mk_closure gray gray_pos green_pos guess" "[]" yellow "[]"]
  by (simp add: filter_words_def mk_closure_def Trie_def split: option.splits)

lemma list_filter_words:
  assumes "wf_node (root_t T)"
  shows "list_t (filter_words T gray gray_pos yellow green_pos guess) =
    filter (accept (mk_closure gray gray_pos green_pos guess) [] yellow) (paths1 (root_t T))"
  using prune_words(1) [of "mk_closure gray gray_pos green_pos guess" "root_t T" "[]" yellow]
  by (simp add: filter_words_prune [OF assms] split: option.splits)

lemma tight_has_path: "tight n \<Longrightarrow> \<exists>s. s \<in> set (paths1 n)"
  using tight_words [of n] by (simp add: ex_in_conv)

lemma prune_fix:
  "tight k \<Longrightarrow> \<forall>s\<in>set (paths1 k). accept cl cw y s \<Longrightarrow> prune cl k cw y = Some k"
  and "list_all (\<lambda>(c, n). tight n) ks \<Longrightarrow>
       \<forall>(c, n)\<in>set ks. \<forall>s\<in>set (paths1 n).
          \<not> skip_gray cl y c \<and> accept cl (cw @ [c]) (update_yellow y c) s \<Longrightarrow>
       prune_items cl ks cw y = ks"
proof (induction cl k cw y and cl ks cw y rule: prune_prune_items.induct)
  case (1 cl e cs cw y)
  show ?case
  proof (cases e)
    case True
    with "1.prems" show ?thesis by simp
  next
    case False
    with "1.prems"(1) obtain c n ds where cs: "cs = (c, n) # ds" and t: "list_all (\<lambda>(c, n). tight n) cs"
      by (cases cs) auto
    then have "tight n" by simp
    then obtain s where "s \<in> set (paths1 n)"
      using tight_has_path by blast
    then have "c # s \<in> set (paths1 (Node e cs))"
      using False cs by simp
    with "1.prems"(2) have "accept cl cw y (c # s)" by blast
    then have ok: "\<not> (green_fails cl cw \<or> gray_fails cl cw)" by simp
    have "\<forall>(c, n)\<in>set cs. \<forall>s\<in>set (paths1 n).
          \<not> skip_gray cl y c \<and> accept cl (cw @ [c]) (update_yellow y c) s"
    proof (clarify)
      fix c' n' s'
      assume "(c', n') \<in> set cs" "s' \<in> set (paths1 n')"
      then have "c' # s' \<in> set (paths1 (Node e cs))"
        using False by force
      with "1.prems"(2) have "accept cl cw y (c' # s')" by blast
      then show "\<not> skip_gray cl y c' \<and> accept cl (cw @ [c']) (update_yellow y c') s'"
        by simp
    qed
    with "1.IH" [OF ok False t] have "prune_items cl cs cw y = cs" .
    with ok False cs show ?thesis by simp
  qed
next
  case (2 cl cw y)
  show ?case by simp
next
  case (3 cl c n rest cw y)
  from "3.prems"(1) have t: "tight n" "list_all (\<lambda>(c, n). tight n) rest" by simp_all
  obtain s where s: "s \<in> set (paths1 n)"
    using tight_has_path [OF t(1)] by blast
  with "3.prems"(2) have ns: "\<not> skip_gray cl y c" by auto
  have a: "\<forall>s\<in>set (paths1 n). accept cl (cw @ [c]) (update_yellow y c) s"
    using "3.prems"(2) by auto
  have p: "prune cl n (cw @ [c]) (update_yellow y c) = Some n"
    using "3.IH"(2) [OF ns t(1) a] .
  have "prune_items cl rest cw y = rest"
    using "3.IH"(4) [OF ns p t(2)] "3.prems"(2) by simp
  with ns p show ?case by simp
qed

lemma trie_ok_build: "trie_ok (build ws)"
proof -
  have wf: "wf_node (root_t (build ws))"
    by (simp add: build_def root_build Trie_def wf_fold_insert)
  have "v \<in> set (words_of (root_t (build ws))) \<longleftrightarrow> v \<in> set ws" for v
    using words_of_contains [OF wf, of v]
    by (simp add: build_def root_build Trie_def contains_fold_insert)
  then show ?thesis
    using wf by (auto simp: trie_ok_def build_def list_build Trie_def)
qed

lemma trie_ok_filter_words:
  assumes "trie_ok T"
  shows "trie_ok (filter_words T gray gray_pos yellow green_pos guess)"
proof -
  have wf: "wf_node (root_t T)" using assms by (simp add: trie_ok_def)
  show ?thesis
  proof (cases "prune (mk_closure gray gray_pos green_pos guess) (root_t T) [] yellow")
    case None
    then show ?thesis by (simp add: trie_ok_def filter_words_prune [OF wf])
  next
    case (Some k)
    with prune_wf(1) [OF wf Some] show ?thesis
      by (simp add: trie_ok_def filter_words_prune [OF wf])
  qed
qed

text \<open>
  Claim C5. Filtering is monotone: the words of the filtered trie are words of the source
  trie, so there are at most as many. Filtering is idempotent: filtering the result again
  with the same arguments returns the same trie (node structure and word list).
\<close>

theorem filter_words_monotone_idempotent:
  assumes "trie_ok T"
  shows "set (list_t (filter_words T gray gray_pos yellow green_pos guess)) \<subseteq> set (list_t T)
    \<and> card (set (list_t (filter_words T gray gray_pos yellow green_pos guess)))
        \<le> card (set (list_t T))
    \<and> filter_words (filter_words T gray gray_pos yellow green_pos guess)
        gray gray_pos yellow green_pos guess
      = filter_words T gray gray_pos yellow green_pos guess"
proof -
  let ?cl = "mk_closure gray gray_pos green_pos guess"
  let ?F = "\<lambda>T. filter_words T gray gray_pos yellow green_pos guess"
  have wf: "wf_node (root_t T)" and l: "set (list_t T) = set (words_of (root_t T))"
    using assms by (simp_all add: trie_ok_def)
  have sub: "set (list_t (?F T)) \<subseteq> set (list_t T)"
    using paths1_subset [of "root_t T"] unfolding list_filter_words [OF wf] l by auto
  then have card: "card (set (list_t (?F T))) \<le> card (set (list_t T))"
    by (intro card_mono) simp_all
  have idem: "?F (?F T) = ?F T"
  proof (cases "prune ?cl (root_t T) [] yellow")
    case None
    then have "?F T = \<lparr>root_t = Node False [], list_t = []\<rparr>"
      by (simp add: filter_words_prune [OF wf])
    moreover have "?F \<lparr>root_t = Node False [], list_t = []\<rparr> = \<lparr>root_t = Node False [], list_t = []\<rparr>"
      by (simp add: filter_words_prune green_fails_def gray_fails_def)
    ultimately show ?thesis by simp
  next
    case (Some k)
    then have F: "?F T = \<lparr>root_t = k, list_t = words_of k\<rparr>"
      by (simp add: filter_words_prune [OF wf])
    have t: "tight k" and wfk: "wf_node k"
      using Some prune_tight(1) prune_wf(1) [OF wf] by blast+
    have "words_of k = filter (accept ?cl [] yellow) (paths1 (root_t T))"
      using prune_words(1) [of ?cl "root_t T" "[]" yellow] Some by simp
    moreover have "paths1 k = words_of k"
      using tight_words [OF t] by simp
    ultimately have "paths1 k = filter (accept ?cl [] yellow) (paths1 (root_t T))"
      by simp
    then have "\<forall>s\<in>set (paths1 k). accept ?cl [] yellow s"
      by simp
    then have "prune ?cl k [] yellow = Some k"
      using prune_fix(1) [OF t] by blast
    then have "?F \<lparr>root_t = k, list_t = words_of k\<rparr> = \<lparr>root_t = k, list_t = words_of k\<rparr>"
      using wfk by (simp add: filter_words_prune)
    with F show ?thesis by simp
  qed
  from sub card idem show ?thesis by (intro conjI)
qed

theorem filter_words_monotone_idempotent_witness:
  "set (list_t (filter_words (build [''tepid'', ''deeds''])
       {CHR ''l'', CHR ''e'', CHR ''r''}
       [(0, CHR ''e''), (1, CHR ''l''), (2, CHR ''d''), (3, CHR ''e''), (4, CHR ''r'')]
       [(CHR ''e'', 1), (CHR ''d'', 1)] [] ''elder''))
     \<subseteq> set (list_t (build [''tepid'', ''deeds'']))
   \<and> card (set (list_t (filter_words (build [''tepid'', ''deeds''])
       {CHR ''l'', CHR ''e'', CHR ''r''}
       [(0, CHR ''e''), (1, CHR ''l''), (2, CHR ''d''), (3, CHR ''e''), (4, CHR ''r'')]
       [(CHR ''e'', 1), (CHR ''d'', 1)] [] ''elder'')))
     \<le> card (set (list_t (build [''tepid'', ''deeds''])))
   \<and> filter_words (filter_words (build [''tepid'', ''deeds''])
       {CHR ''l'', CHR ''e'', CHR ''r''}
       [(0, CHR ''e''), (1, CHR ''l''), (2, CHR ''d''), (3, CHR ''e''), (4, CHR ''r'')]
       [(CHR ''e'', 1), (CHR ''d'', 1)] [] ''elder'')
       {CHR ''l'', CHR ''e'', CHR ''r''}
       [(0, CHR ''e''), (1, CHR ''l''), (2, CHR ''d''), (3, CHR ''e''), (4, CHR ''r'')]
       [(CHR ''e'', 1), (CHR ''d'', 1)] [] ''elder''
     = filter_words (build [''tepid'', ''deeds''])
       {CHR ''l'', CHR ''e'', CHR ''r''}
       [(0, CHR ''e''), (1, CHR ''l''), (2, CHR ''d''), (3, CHR ''e''), (4, CHR ''r'')]
       [(CHR ''e'', 1), (CHR ''d'', 1)] [] ''elder''"
  by (rule filter_words_monotone_idempotent [OF trie_ok_build])

subsection \<open>One path of \<open>dfs\<close> in closed form\<close>

lemma yget_update_yellow:
  "yget (update_yellow y c) d = (if d = c \<and> 0 < yget y c then yget y c - 1 else yget y d)"
  by (simp add: update_yellow_def yget_def update_conv')

lemma distinct_update_yellow:
  "distinct (map fst y) \<Longrightarrow> distinct (map fst (update_yellow y c))"
  by (simp add: update_yellow_def distinct_update)

lemma yellow_fails_iff:
  assumes "distinct (map fst y)"
  shows "yellow_fails y w \<longleftrightarrow> (\<exists>c. 0 < yget y c \<and> int (count_list w c) < yget y c)"
proof
  assume "yellow_fails y w"
  then obtain c k where ck: "(c, k) \<in> set y" "0 < k" "int (count_list w c) < k"
    by (auto simp: yellow_fails_def list_ex_iff)
  then have "map_of y c = Some k"
    using assms by simp
  then have "yget y c = k" by (simp add: yget_def)
  with ck show "\<exists>c. 0 < yget y c \<and> int (count_list w c) < yget y c" by blast
next
  assume "\<exists>c. 0 < yget y c \<and> int (count_list w c) < yget y c"
  then obtain c where c: "0 < yget y c" "int (count_list w c) < yget y c" by blast
  then obtain k where k: "map_of y c = Some k" "yget y c = k"
    by (cases "map_of y c") (simp_all add: yget_def)
  then have "(c, k) \<in> set y" by (simp add: map_of_SomeD)
  with c k show "yellow_fails y w"
    unfolding yellow_fails_def list_ex_iff by (intro bexI [of _ "(c, k)"]) simp_all
qed

lemma gray_bound_Cons:
  "\<not> skip_gray cl y c \<and> gray_bound cl (update_yellow y c) s \<longleftrightarrow> gray_bound cl y (c # s)"
proof -
  let ?G = "\<lambda>d. d \<in> gray_set cl \<and> d \<notin> green_values cl"
  have other: "(?G d \<and> 0 \<le> yget (update_yellow y c) d \<longrightarrow>
        int (count_list s d) \<le> yget (update_yellow y c) d) \<longleftrightarrow>
      (?G d \<and> 0 \<le> yget y d \<longrightarrow> int (count_list (c # s) d) \<le> yget y d)"
    if "d \<noteq> c" for d
    using that by (simp add: yget_update_yellow)
  have same: "\<not> skip_gray cl y c \<and> (?G c \<and> 0 \<le> yget (update_yellow y c) c \<longrightarrow>
        int (count_list s c) \<le> yget (update_yellow y c) c) \<longleftrightarrow>
      (?G c \<and> 0 \<le> yget y c \<longrightarrow> int (count_list (c # s) c) \<le> yget y c)"
    by (simp add: yget_update_yellow skip_gray_def) linarith
  show ?thesis
    unfolding gray_bound_def using other same by metis
qed

lemma yellow_left_Cons:
  "yellow_left (update_yellow y c) (cw @ [c]) s \<longleftrightarrow> yellow_left y cw (c # s)"
proof -
  have "(0 < yget (update_yellow y c) d \<and> int (count_list s d) < yget (update_yellow y c) d \<longrightarrow>
        yget (update_yellow y c) d - int (count_list s d) \<le> int (count_list ((cw @ [c]) @ s) d)) \<longleftrightarrow>
      (0 < yget y d \<and> int (count_list (c # s) d) < yget y d \<longrightarrow>
        yget y d - int (count_list (c # s) d) \<le> int (count_list (cw @ c # s) d))" for d
    by (cases "d = c") (auto simp: yget_update_yellow)
  then show ?thesis
    unfolding yellow_left_def by simp
qed

lemma accept_iff:
  "distinct (map fst y) \<Longrightarrow>
   accept cl cw y s \<longleftrightarrow>
     pos_ok cl cw s \<and> cw @ s \<noteq> guess_arg cl \<and> gray_bound cl y s \<and> yellow_left y cw s"
proof (induction s arbitrary: cw y)
  case Nil
  then show ?case
    by (auto simp: yellow_fails_iff gray_bound_def yellow_left_def)
next
  case (Cons c s)
  have "accept cl cw y (c # s) \<longleftrightarrow>
      \<not> green_fails cl cw \<and> \<not> gray_fails cl cw \<and> \<not> skip_gray cl y c \<and>
      pos_ok cl (cw @ [c]) s \<and> (cw @ [c]) @ s \<noteq> guess_arg cl \<and>
      gray_bound cl (update_yellow y c) s \<and> yellow_left (update_yellow y c) (cw @ [c]) s"
    using Cons.IH [OF distinct_update_yellow [OF Cons.prems]] by simp
  then show ?case
    using gray_bound_Cons [of cl y c s] yellow_left_Cons [of y c cw s] by auto
qed

subsection \<open>Positions and words of one length\<close>

lemma pos_ok_prefixes:
  "pos_ok cl cw s \<longleftrightarrow>
     (\<forall>i<Suc (length s). \<not> green_fails cl (cw @ take i s) \<and> \<not> gray_fails cl (cw @ take i s))"
proof (induction s arbitrary: cw)
  case Nil
  show ?case by simp
next
  case (Cons c s)
  show ?case
    unfolding pos_ok.simps Cons.IH [of "cw @ [c]"]
    by (subst (2) All_less_Suc2) simp
qed

lemma last_take_Suc: "p < length w \<Longrightarrow> last (take (Suc p) w) = w ! p"
  by (simp add: take_Suc_conv_app_nth)

lemma pos_ok_positions:
  "pos_ok cl [] w \<longleftrightarrow>
     (\<forall>p<length w.
        (\<forall>g. map_of (green_pos_arg cl) p = Some g \<longrightarrow> w ! p = g) \<and>
        (\<forall>g. map_of (gray_pos_arg cl) p = Some g \<longrightarrow> w ! p \<noteq> g))"
proof -
  have "(\<not> green_fails cl (take (Suc p) w) \<and> \<not> gray_fails cl (take (Suc p) w)) \<longleftrightarrow>
      ((\<forall>g. map_of (green_pos_arg cl) p = Some g \<longrightarrow> w ! p = g) \<and>
       (\<forall>g. map_of (gray_pos_arg cl) p = Some g \<longrightarrow> w ! p \<noteq> g))"
    if "p < length w" for p
  proof -
    have "take (Suc p) w \<noteq> []" "length (take (Suc p) w) - 1 = p"
      using that by auto
    then show ?thesis
      using last_take_Suc [OF that]
      by (simp add: green_fails_def gray_fails_def split: option.splits)
  qed
  moreover have "\<not> green_fails cl []" "\<not> gray_fails cl []"
    by (simp_all add: green_fails_def gray_fails_def)
  ultimately show ?thesis
    unfolding pos_ok_prefixes by (subst All_less_Suc2) simp
qed

lemma uniform_paths1:
  "\<forall>w\<in>set (words_of n). length w = L \<Longrightarrow> set (paths1 n) = set (words_of n)"
proof (induction n arbitrary: L rule: paths1.induct)
  case (1 e cs)
  show ?case
  proof (cases e)
    case True
    then have "[] \<in> set (words_of (Node e cs))" by simp
    with 1(2) have "L = 0" by fastforce
    have "item_words cs = []"
    proof (rule ccontr)
      assume "item_words cs \<noteq> []"
      then obtain w where w: "w \<in> set (item_words cs)" by (cases "item_words cs") auto
      then have "w \<noteq> []" by (auto simp: item_words_def)
      moreover have "w \<in> set (words_of (Node e cs))"
        using w by (simp add: words_of_Node del: words_of.simps)
      ultimately show False using 1(2) \<open>L = 0\<close> by fastforce
    qed
    with True show ?thesis
      by (simp add: words_of_Node del: words_of.simps)
  next
    case False
    have "set (paths1 n) = set (words_of n)" if "(c, n) \<in> set cs" for c n
    proof -
      have "\<forall>w\<in>set (words_of n). length w = L - 1"
      proof
        fix w assume "w \<in> set (words_of n)"
        then have "c # w \<in> set (words_of (Node e cs))"
          using that by force
        with 1(2) have "length (c # w) = L" by blast
        then show "length w = L - 1" by simp
      qed
      from 1(1) [OF False that refl this] show ?thesis .
    qed
    then show ?thesis
      using False by auto
  qed
qed

subsection \<open>The words \<open>filter_words\<close> returns\<close>

lemma list_t_build: "list_t (build ws) = ws"
  by (simp add: build_def list_build Trie_def)

lemma yget_01:
  assumes "\<forall>(c, k)\<in>set yellow. 0 \<le> k \<and> k \<le> 1"
  shows "0 \<le> yget yellow c \<and> yget yellow c \<le> 1"
proof (cases "map_of yellow c")
  case None
  then show ?thesis by (simp add: yget_def)
next
  case (Some k)
  then have "(c, k) \<in> set yellow" by (rule map_of_SomeD)
  with assms Some show ?thesis by (auto simp: yget_def)
qed

lemma yellow_left_01:
  assumes "\<And>c. 0 \<le> yget y c \<and> yget y c \<le> 1"
  shows "yellow_left y [] w \<longleftrightarrow> (\<forall>c. yget y c \<le> int (count_list w c))"
proof -
  have "(0 < yget y c \<and> int (count_list w c) < yget y c \<longrightarrow>
         yget y c - int (count_list w c) \<le> int (count_list w c)) \<longleftrightarrow>
        yget y c \<le> int (count_list w c)" for c
    using assms [of c] by linarith
  then show ?thesis by (simp add: yellow_left_def)
qed

lemma gray_bound_nonneg:
  assumes "\<And>c. 0 \<le> yget y c"
  shows "gray_bound (mk_closure gray gray_pos green_pos guess) y w \<longleftrightarrow>
    (\<forall>c. c \<in> gray \<and> c \<notin> snd ` set green_pos \<longrightarrow> int (count_list w c) \<le> yget y c)"
  using assms by (simp add: gray_bound_def mk_closure_def)

text \<open>
  Claim C1, as the code has it. Take a trie whose words all have one length (so no word
  is a prefix of another) and a \<open>yellow\<close> counter whose counts are 0 or 1. Then
  \<open>filter_words\<close> returns the trie of exactly the words \<open>w\<close> of the source with:
  \<open>w[p] = green_pos[p]\<close> at every position \<open>p\<close> of \<open>green_pos\<close> inside the word;
  \<open>w[p] \<noteq> gray_pos[p]\<close> at every position \<open>p\<close> of \<open>gray_pos\<close> inside the word;
  every letter of \<open>yellow\<close> occurs at least as often as its count;
  a letter of \<open>gray\<close> that is no green letter occurs at most as often as its yellow count
  (not at all when it has none); and \<open>w \<noteq> guess\<close>.
\<close>

theorem filter_words_exact:
  assumes "trie_ok T"
    and "\<forall>w\<in>set (list_t T). length w = L"
    and "distinct (map fst yellow)"
    and "\<forall>(c, k)\<in>set yellow. 0 \<le> k \<and> k \<le> 1"
  shows "set (list_t (filter_words T gray gray_pos yellow green_pos guess)) =
    {w \<in> set (list_t T).
       (\<forall>p<length w. \<forall>g. map_of green_pos p = Some g \<longrightarrow> w ! p = g) \<and>
       (\<forall>p<length w. \<forall>g. map_of gray_pos p = Some g \<longrightarrow> w ! p \<noteq> g) \<and>
       (\<forall>c. yget yellow c \<le> int (count_list w c)) \<and>
       (\<forall>c. c \<in> gray \<and> c \<notin> snd ` set green_pos \<longrightarrow> int (count_list w c) \<le> yget yellow c) \<and>
       w \<noteq> guess}"
proof -
  let ?cl = "mk_closure gray gray_pos green_pos guess"
  have wf: "wf_node (root_t T)" and l: "set (list_t T) = set (words_of (root_t T))"
    using assms(1) by (simp_all add: trie_ok_def)
  have p: "set (paths1 (root_t T)) = set (list_t T)"
    using uniform_paths1 [of "root_t T" L] assms(2) l by simp
  have y: "0 \<le> yget yellow c \<and> yget yellow c \<le> 1" for c
    using yget_01 [OF assms(4)] .
  have a: "accept ?cl [] yellow w \<longleftrightarrow>
       (\<forall>p<length w. \<forall>g. map_of green_pos p = Some g \<longrightarrow> w ! p = g) \<and>
       (\<forall>p<length w. \<forall>g. map_of gray_pos p = Some g \<longrightarrow> w ! p \<noteq> g) \<and>
       (\<forall>c. yget yellow c \<le> int (count_list w c)) \<and>
       (\<forall>c. c \<in> gray \<and> c \<notin> snd ` set green_pos \<longrightarrow> int (count_list w c) \<le> yget yellow c) \<and>
       w \<noteq> guess" for w
  proof -
    have "pos_ok ?cl [] w \<longleftrightarrow>
       (\<forall>p<length w. \<forall>g. map_of green_pos p = Some g \<longrightarrow> w ! p = g) \<and>
       (\<forall>p<length w. \<forall>g. map_of gray_pos p = Some g \<longrightarrow> w ! p \<noteq> g)"
      unfolding pos_ok_positions by (auto simp: mk_closure_def)
    moreover have "guess_arg ?cl = guess" by (simp add: mk_closure_def)
    ultimately show ?thesis
      unfolding accept_iff [OF assms(3)] yellow_left_01 [of yellow, OF y]
        gray_bound_nonneg [of yellow, OF conjunct1 [OF y]]
      by auto
  qed
  have "set (list_t (filter_words T gray gray_pos yellow green_pos guess)) =
      {w \<in> set (list_t T). accept ?cl [] yellow w}"
    unfolding list_filter_words [OF wf] using p by auto
  then show ?thesis
    unfolding a .
qed

theorem filter_words_exact_witness:
  "set (list_t (filter_words (build [''tepid'', ''deeds''])
       {CHR ''l'', CHR ''e'', CHR ''r''}
       [(0, CHR ''e''), (1, CHR ''l''), (2, CHR ''d''), (3, CHR ''e''), (4, CHR ''r'')]
       [(CHR ''e'', 1), (CHR ''d'', 1)] ([]::(nat \<times> char) list) ''elder'')) =
    {w \<in> set (list_t (build [''tepid'', ''deeds''])).
       (\<forall>p<length w. \<forall>g. map_of ([]::(nat \<times> char) list) p = Some g \<longrightarrow> w ! p = g) \<and>
       (\<forall>p<length w. \<forall>g.
          map_of [(0, CHR ''e''), (1, CHR ''l''), (2, CHR ''d''), (3, CHR ''e''), (4, CHR ''r'')] p
            = Some g \<longrightarrow> w ! p \<noteq> g) \<and>
       (\<forall>c. yget [(CHR ''e'', 1), (CHR ''d'', 1)] c \<le> int (count_list w c)) \<and>
       (\<forall>c. c \<in> {CHR ''l'', CHR ''e'', CHR ''r''} \<and> c \<notin> snd ` set ([]::(nat \<times> char) list) \<longrightarrow>
          int (count_list w c) \<le> yget [(CHR ''e'', 1), (CHR ''d'', 1)] c) \<and>
       w \<noteq> ''elder''}"
proof (rule filter_words_exact [OF trie_ok_build, where L = 5])
  show "\<forall>w\<in>set (list_t (build [''tepid'', ''deeds''])). length w = 5"
    by (simp add: list_t_build)
  show "distinct (map fst [(CHR ''e'', 1::int), (CHR ''d'', 1)])"
    by simp
  show "\<forall>(c, k)\<in>set [(CHR ''e'', 1::int), (CHR ''d'', 1)]. 0 \<le> k \<and> k \<le> 1"
    by simp
qed

text \<open>
  The claim as the specification states it lets a gray letter occur any number of times
  once it has a positive yellow count. After the guess \<open>elder\<close> with one \<open>e\<close> yellow and one
  \<open>e\<close> gray, the specification keeps \<open>deeds\<close>; \<open>dfs\<close> uses up the yellow count at the first
  \<open>e\<close> and prunes the second.
\<close>

theorem filter_words_spec_counterexample:
  "set (list_t (filter_words (build [''tepid'', ''deeds''])
       {CHR ''l'', CHR ''e'', CHR ''r''}
       [(0, CHR ''e''), (1, CHR ''l''), (2, CHR ''d''), (3, CHR ''e''), (4, CHR ''r'')]
       [(CHR ''e'', 1), (CHR ''d'', 1)] [] ''elder'')) \<noteq>
    {w \<in> set (list_t (build [''tepid'', ''deeds''])).
       spec_filter_ok {CHR ''l'', CHR ''e'', CHR ''r''}
         [(0, CHR ''e''), (1, CHR ''l''), (2, CHR ''d''), (3, CHR ''e''), (4, CHR ''r'')]
         [(CHR ''e'', 1), (CHR ''d'', 1)] [] ''elder'' w}"
proof -
  have code: "list_t (filter_words (build [''tepid'', ''deeds''])
       {CHR ''l'', CHR ''e'', CHR ''r''}
       [(0, CHR ''e''), (1, CHR ''l''), (2, CHR ''d''), (3, CHR ''e''), (4, CHR ''r'')]
       [(CHR ''e'', 1), (CHR ''d'', 1)] [] ''elder'') = [''tepid'']"
    by code_simp
  have spec: "spec_filter_ok {CHR ''l'', CHR ''e'', CHR ''r''}
         [(0, CHR ''e''), (1, CHR ''l''), (2, CHR ''d''), (3, CHR ''e''), (4, CHR ''r'')]
         [(CHR ''e'', 1), (CHR ''d'', 1)] [] ''elder'' ''deeds''"
    by code_simp
  have "''deeds'' \<in> set (list_t (build [''tepid'', ''deeds'']))"
    by (simp add: list_t_build)
  with spec have "''deeds'' \<in> {w \<in> set (list_t (build [''tepid'', ''deeds''])).
       spec_filter_ok {CHR ''l'', CHR ''e'', CHR ''r''}
         [(0, CHR ''e''), (1, CHR ''l''), (2, CHR ''d''), (3, CHR ''e''), (4, CHR ''r'')]
         [(CHR ''e'', 1), (CHR ''d'', 1)] [] ''elder'' w}"
    by simp
  moreover have "''deeds'' \<notin> set [''tepid'']" by simp
  ultimately show ?thesis unfolding code by metis
qed

text \<open>
  With a yellow count of 2 the check at the end of a word compares the letter count with
  the count left in the decremented copy: \<open>trope\<close>, with one \<open>e\<close>, passes.
\<close>

lemma filter_words_yellow_count_two:
  "list_t (filter_words (build [''there'', ''trope''])
       {CHR ''i''}
       [(0, CHR ''e''), (1, CHR ''e''), (2, CHR ''r''), (3, CHR ''i'')]
       [(CHR ''e'', 2), (CHR ''r'', 1)] [(4, CHR ''e'')] ''eerie'') = [''there'', ''trope'']
   \<and> count_list ''trope'' CHR ''e'' = 1"
  by code_simp

section \<open>Properties of the entropy scorer\<close>

subsection \<open>The pattern cache\<close>

lemma cur_inv_upd:
  "cur_inv w1 cur \<Longrightarrow> get_matches w1 w2 = Inr v \<Longrightarrow> cur_inv w1 (cur(w2 \<mapsto> v))"
  by (simp add: cur_inv_def)

lemma targets_loop_dist:
  "cur_inv w1 cur \<Longrightarrow>
   snd (targets_loop w1 ts cur pd) = dist_loop w1 ts pd \<and>
   cur_inv w1 (fst (targets_loop w1 ts cur pd))"
proof (induction ts arbitrary: cur pd)
  case Nil
  then show ?case by simp
next
  case (Cons w2 rest)
  show ?case
  proof (cases "cur w2")
    case (Some v)
    with Cons.prems have g: "get_matches w1 w2 = Inr v" by (simp add: cur_inv_def)
    from Some have "targets_loop w1 (w2 # rest) cur pd = targets_loop w1 rest cur (counter_inc pd v)"
      by simp
    moreover from g have "dist_loop w1 (w2 # rest) pd = dist_loop w1 rest (counter_inc pd v)"
      by simp
    ultimately show ?thesis
      using Cons.IH [OF Cons.prems, of "counter_inc pd v"] by (simp only:)
  next
    case None
    show ?thesis
    proof (cases "get_matches w1 w2")
      case (Inl e)
      with None Cons.prems show ?thesis by simp
    next
      case (Inr v)
      from None Inr have "targets_loop w1 (w2 # rest) cur pd =
          targets_loop w1 rest (cur(w2 \<mapsto> v)) (counter_inc pd v)"
        by simp
      moreover from Inr have "dist_loop w1 (w2 # rest) pd = dist_loop w1 rest (counter_inc pd v)"
        by simp
      ultimately show ?thesis
        using Cons.IH [OF cur_inv_upd [OF Cons.prems Inr], of "counter_inc pd v"]
        by (simp only:)
    qed
  qed
qed

lemma cache_inv_lookup:
  "cache_inv cache \<Longrightarrow> cur_inv w1 (case cache w1 of None \<Rightarrow> Map.empty | Some cur \<Rightarrow> cur)"
  by (auto simp: cache_inv_def cur_inv_def split: option.splits)

lemma cache_inv_upd: "cache_inv cache \<Longrightarrow> cur_inv w1 cur \<Longrightarrow> cache_inv (cache(w1 \<mapsto> cur))"
  by (simp add: cache_inv_def)

lemma sources_loop_best:
  "cache_inv cache \<Longrightarrow>
   snd (sources_loop ss ts cache b m) = best_loop ss ts b m \<and>
   cache_inv (fst (sources_loop ss ts cache b m))"
proof (induction ss arbitrary: cache b m)
  case Nil
  then show ?case by simp
next
  case (Cons w1 rest)
  let ?cur0 = "case cache w1 of None \<Rightarrow> Map.empty | Some cur \<Rightarrow> cur"
  obtain cur r where t: "targets_loop w1 ts ?cur0 [] = (cur, r)"
    by (cases "targets_loop w1 ts ?cur0 []")
  from targets_loop_dist [OF cache_inv_lookup [OF Cons.prems], of w1 ts "[]"] t
  have r: "r = dist_loop w1 ts []" and c: "cur_inv w1 cur" by simp_all
  note inv = cache_inv_upd [OF Cons.prems c]
  show ?case
  proof (cases r)
    case (Inl e)
    then have d: "dist_loop w1 ts [] = Inl e" using r by simp
    from t Inl have sl: "sources_loop (w1 # rest) ts cache b m = (cache(w1 \<mapsto> cur), Inl e)"
      by simp
    from d have bl: "best_loop (w1 # rest) ts b m = Inl e"
      by simp
    show ?thesis
      unfolding sl bl fst_conv snd_conv using inv by (intro conjI refl)
  next
    case (Inr pd)
    then have d: "dist_loop w1 ts [] = Inr pd" using r by simp
    show ?thesis
    proof (cases "gt_float (entropy_loop (map snd pd) (length ts)) m")
      case True
      with t Inr have "sources_loop (w1 # rest) ts cache b m =
          sources_loop rest ts (cache(w1 \<mapsto> cur)) w1 (Fin (entropy_loop (map snd pd) (length ts)))"
        by simp
      moreover from d True have "best_loop (w1 # rest) ts b m =
          best_loop rest ts w1 (Fin (entropy_loop (map snd pd) (length ts)))"
        by simp
      ultimately show ?thesis
        using Cons.IH [OF inv, of w1 "Fin (entropy_loop (map snd pd) (length ts))"]
        by (simp only:)
    next
      case False
      with t Inr have "sources_loop (w1 # rest) ts cache b m =
          sources_loop rest ts (cache(w1 \<mapsto> cur)) b m"
        by simp
      moreover from d False have "best_loop (w1 # rest) ts b m = best_loop rest ts b m"
        by simp
      ultimately show ?thesis
        using Cons.IH [OF inv, of b m] by (simp only:)
    qed
  qed
qed

lemma get_max_entropy_word_cache_free:
  "cache_inv cache \<Longrightarrow>
   snd (get_max_entropy_word cache sources targets) =
     (if length targets = 0
      then Inr (case sources of [] \<Rightarrow> [] | s # _ \<Rightarrow> s, Fin 0)
      else best_loop sources targets [] NegInf) \<and>
   cache_inv (fst (get_max_entropy_word cache sources targets))"
  using sources_loop_best [of cache sources targets "[]" NegInf]
  by (simp add: get_max_entropy_word_def)

text \<open>
  Claim C10. The invariant of the pattern cache (every stored entry is the value of
  \<open>get_matches\<close> for its two words) holds for the empty cache and is preserved by every
  call of \<open>get_max_entropy_word\<close>, also by one that raises. From two caches with the
  invariant a call with the same sources and targets gives the same result, whichever
  entries earlier calls stored.
\<close>

theorem pattern_cache_invariant:
  "cache_inv Map.empty
   \<and> (cache_inv cache \<longrightarrow> cache_inv (fst (get_max_entropy_word cache sources targets)))
   \<and> (cache_inv cache \<and> cache_inv cache' \<longrightarrow>
        snd (get_max_entropy_word cache sources targets) =
        snd (get_max_entropy_word cache' sources targets))"
proof -
  have "cache_inv Map.empty" by (simp add: cache_inv_def)
  moreover have "cache_inv cache \<longrightarrow> cache_inv (fst (get_max_entropy_word cache sources targets))"
    using get_max_entropy_word_cache_free by blast
  moreover have "cache_inv cache \<and> cache_inv cache' \<longrightarrow>
        snd (get_max_entropy_word cache sources targets) =
        snd (get_max_entropy_word cache' sources targets)"
    using get_max_entropy_word_cache_free [of cache sources targets]
      get_max_entropy_word_cache_free [of cache' sources targets] by simp
  ultimately show ?thesis by (intro conjI)
qed

theorem pattern_cache_invariant_witness:
  "cache_inv (fst (get_max_entropy_word Map.empty [''crane''] [''slate'']))
   \<and> snd (get_max_entropy_word (fst (get_max_entropy_word Map.empty [''crane''] [''slate'']))
            [''crane'', ''slate''] [''slate'', ''crane'']) =
     snd (get_max_entropy_word Map.empty [''crane'', ''slate''] [''slate'', ''crane''])
   \<and> fst (get_max_entropy_word Map.empty [''crane''] [''slate'']) ''crane'' \<noteq> None"
proof -
  have e: "cache_inv Map.empty"
    using pattern_cache_invariant [of Map.empty "[]" "[]" Map.empty] by simp
  have c: "cache_inv (fst (get_max_entropy_word Map.empty [''crane''] [''slate'']))"
    using pattern_cache_invariant [of Map.empty "[''crane'']" "[''slate'']" Map.empty] e by simp
  have "snd (get_max_entropy_word (fst (get_max_entropy_word Map.empty [''crane''] [''slate'']))
            [''crane'', ''slate''] [''slate'', ''crane'']) =
     snd (get_max_entropy_word Map.empty [''crane'', ''slate''] [''slate'', ''crane''])"
    using pattern_cache_invariant [of "fst (get_max_entropy_word Map.empty [''crane''] [''slate''])"
        "[''crane'', ''slate'']" "[''slate'', ''crane'']" Map.empty] e c by simp
  moreover have "get_matches ''crane'' ''slate'' = Inr 180" by code_simp
  then have "fst (get_max_entropy_word Map.empty [''crane''] [''slate'']) ''crane'' \<noteq> None"
    by (simp add: get_max_entropy_word_def)
  ultimately show ?thesis using c by (intro conjI)
qed

subsection \<open>The source of maximal entropy\<close>


















section \<open>Properties of the strategist\<close>

subsection \<open>One candidate left\<close>

lemma column_single: "i < length word \<Longrightarrow> column i [word] = Inr [word ! i]"
  by simp

lemma pos_loop_single:
  "\<forall>i\<in>set idx. i < length word \<Longrightarrow> \<exists>freqs'. pos_loop idx [word] freqs = Inr freqs'"
  by (induction idx arbitrary: freqs) simp_all

lemma update_frequencies_single:
  assumes "word_list self = [word]" and "5 \<le> length word"
  shows "\<exists>freqs. update_frequencies True True self =
           Inr (self\<lparr>letter_frequency_abs := Counter word, letter_frequency_pos := freqs\<rparr>)"
proof -
  have "\<forall>i\<in>set [0..<5]. i < length word" using assms(2) by simp
  from pos_loop_single [OF this, of "[]"]
  obtain freqs where "pos_loop [0..<5] [word] [] = Inr freqs" by blast
  then have "update_frequencies True True self =
      Inr (self\<lparr>letter_frequency_abs := Counter word, letter_frequency_pos := freqs\<rparr>)"
    using assms(1) by (simp add: update_frequencies_def)
  then show ?thesis by blast
qed

lemma u_get_guess_one:
  assumes "word_list self = [word]" and "5 \<le> length word"
  shows "\<exists>freqs. u_get_guess w self =
           Inr (word, self\<lparr>letter_frequency_abs := Counter word, letter_frequency_pos := freqs\<rparr>)"
proof -
  from update_frequencies_single [OF assms]
  obtain freqs where "update_frequencies True True self =
      Inr (self\<lparr>letter_frequency_abs := Counter word, letter_frequency_pos := freqs\<rparr>)"
    by blast
  then have "u_get_guess w self =
      Inr (word, self\<lparr>letter_frequency_abs := Counter word, letter_frequency_pos := freqs\<rparr>)"
    using assms(1) by (simp add: u_get_guess_def)
  then show ?thesis by blast
qed

text \<open>
  Claim C4.  When the candidate list \<open>word_list\<close> holds exactly one word, of at least five
  letters (so that \<open>update_frequencies\<close> can read its first five), \<open>_get_guess\<close> returns
  that word. Of the state only the two frequency tables change, which \<open>update_frequencies\<close>
  writes: the pattern cache is as before, and no entropy is computed.
\<close>

theorem u_get_guess_single_word:
  assumes "word_list self = [word]" and "5 \<le> length word"
  shows "\<exists>freqs. u_get_guess w self =
           Inr (word, self\<lparr>letter_frequency_abs := Counter word, letter_frequency_pos := freqs\<rparr>)"
  using u_get_guess_one [OF assms] .

theorem u_get_guess_single_word_witness:
  "fst (projr (u_get_guess example_world
         ((projr (init [''crane'', ''crank''] ''auto''))\<lparr>word_list := [''crank'']\<rparr>))) = ''crank''
   \<and> u_pattern_cache (snd (projr (u_get_guess example_world
         ((projr (init [''crane'', ''crank''] ''auto''))\<lparr>word_list := [''crank'']\<rparr>)))) =
     u_pattern_cache (projr (init [''crane'', ''crank''] ''auto''))"
proof -
  let ?s = "(projr (init [''crane'', ''crank''] ''auto''))\<lparr>word_list := [''crank'']\<rparr>"
  have "word_list ?s = [''crank'']" "5 \<le> length ''crank''" by simp_all
  from u_get_guess_single_word [OF this, of example_world]
  show ?thesis by auto
qed

subsection \<open>The first guess and the guesses after it\<close>

lemma avoid_crashes_done:
  "guess \<notin> set tried \<Longrightarrow> length guess = 5 \<Longrightarrow> avoid_crashes w tried guess n = Some (Inr (guess, n))"
  by (subst avoid_crashes.simps) simp

lemma avoid_crashes_empty:
  "length guess \<noteq> 5 \<Longrightarrow> avoid_crashes w [] guess n = Some (Inl ValueError)"
  by (subst avoid_crashes.simps) simp

lemma get_guess_first:
  assumes "u_manual self \<noteq> ''manual''" and "u_tried self = []"
    and "length (opening_word self) = 5"
  shows "get_guess w self result =
           Some (Inr (opening_word self, self\<lparr>u_tried := [opening_word self]\<rparr>))"
  using assms by (simp add: get_guess_def avoid_crashes_done)

lemma get_guess_next:
  assumes "u_manual self \<noteq> ''manual''" and "u_tried self \<noteq> []" and "length result = 5"
    and "subset_trie self result = Inr self1"
    and "u_tried self1 \<noteq> []"
    and "u_get_guess w self1 = Inr (guess, self2)"
    and "guess \<notin> set (u_tried self2)" and "length guess = 5"
  shows "get_guess w self result =
           Some (Inr (guess, self2\<lparr>u_tried := u_tried self2 @ [guess]\<rparr>))"
  using assms by (simp add: get_guess_def avoid_crashes_done)

lemma init_fields:
  assumes "init wordlist manual = Inr self"
  shows "u_word_list self = wordlist \<and> u_manual self = manual \<and> u_tried self = []
         \<and> u_word_trie self = build wordlist \<and> word_list self = wordlist
         \<and> word_trie_attr self = Absent \<and> yellow_attr self = Absent \<and> gray_attr self = Absent
         \<and> green_pos_attr self = Absent \<and> gray_pos_attr self = Absent"
  using assms
  unfolding init_def update_frequencies_def frequency_guess_non_word_def Let_def
  by (auto split: sum.splits prod.splits if_splits)

subsection \<open>A game on the dictionary \<open>crane\<close>, \<open>crank\<close>\<close>

text \<open>
  The opening word is \<open>crane\<close>; the feedback \<open>cran+\<close> (four letters in place, \<open>e\<close> absent)
  leaves \<open>crank\<close>, which is the second guess.
\<close>

lemma example_codes:
  "get_matches ''crane'' ''crane'' = Inr 242" "get_matches ''crane'' ''crank'' = Inr 80"
  "get_matches ''crank'' ''crane'' = Inr 80" "get_matches ''crank'' ''crank'' = Inr 242"
  by code_simp+

lemma example_best:
  "\<exists>cache entropy. get_max_entropy_word c0 [''crane'', ''crank''] [''crane'', ''crank'']
       = (cache, Inr (''crane'', entropy))" if "c0 = Map.empty"
  unfolding that
  by (simp add: get_max_entropy_word_def example_codes counter_inc_def entropy_loop_def log_divide)

lemma example_init:
  "\<exists>self. init [''crane'', ''crank''] ''auto'' = Inr self \<and> opening_word self = ''crane''"
proof -
  let ?D = "[''crane'', ''crank'']"
  obtain freqs where p: "pos_loop [0..<5] ?D [] = Inr freqs"
    and l: "letters_loop [0..<5] freqs [] = Inr [''c'', ''r'', ''a'', ''n'', ''ek'']"
  proof -
    have "case pos_loop [0..<5] ?D [] of Inl e \<Rightarrow> False
          | Inr freqs \<Rightarrow> letters_loop [0..<5] freqs [] = Inr [''c'', ''r'', ''a'', ''n'', ''ek'']"
      by code_simp
    with that show ?thesis by (auto split: sum.splits)
  qed
  have c: "filter (\<lambda>combination. length (remdups combination) = 5)
             (product_lists [''c'', ''r'', ''a'', ''n'', ''ek'']) = ?D"
    by code_simp
  obtain cache entropy where
    g: "get_max_entropy_word Map.empty ?D ?D = (cache, Inr (''crane'', entropy))"
    using example_best [OF refl] by blast
  show ?thesis
    unfolding init_def update_frequencies_def frequency_guess_non_word_def Let_def
    by (simp add: p l c g del: upt.simps product_lists.simps)
qed

lemma example_game:
  "\<exists>self0 self2. init [''crane'', ''crank''] ''auto'' = Inr self0
     \<and> get_guess w self0 [] = Some (Inr (''crane'', self0\<lparr>u_tried := [''crane'']\<rparr>))
     \<and> get_guess w (self0\<lparr>u_tried := [''crane'']\<rparr>) ''cran+'' = Some (Inr (''crank'', self2))
     \<and> u_tried self2 = [''crane'', ''crank'']
     \<and> yellow_attr self2 = Present []
     \<and> gray_attr self2 = Present {CHR ''e''}
     \<and> green_pos_attr self2 = Present [(0, CHR ''c''), (1, CHR ''r''), (2, CHR ''a''), (3, CHR ''n'')]
     \<and> gray_pos_attr self2 = Present [(4, CHR ''e'')]"
proof -
  let ?D = "[''crane'', ''crank'']"
  obtain self0 where i: "init ?D ''auto'' = Inr self0" and o: "opening_word self0 = ''crane''"
    using example_init by blast
  note f0 = init_fields [OF i]
  let ?self1 = "self0\<lparr>u_tried := [''crane'']\<rparr>"
  have g1: "get_guess w self0 [] = Some (Inr (''crane'', ?self1))"
    using get_guess_first [of self0 w "[]"] f0 o by simp
  obtain y g gp grp where
    fb: "feedback_loop (enumerate 0 ''crane'') ''cran+'' ([], {}, [], []) = Inr (y, g, gp, grp)"
    and v: "y = []" "g = {CHR ''e''}"
      "gp = [(0, CHR ''c''), (1, CHR ''r''), (2, CHR ''a''), (3, CHR ''n'')]"
      "grp = [(4, CHR ''e'')]"
    and l: "list_t (filter_words (build ?D) g grp y gp ''crane'') = [''crank'']"
  proof -
    have "case feedback_loop (enumerate 0 ''crane'') ''cran+'' ([], {}, [], []) of
            Inl e \<Rightarrow> False
          | Inr (y, g, gp, grp) \<Rightarrow>
              y = [] \<and> g = {CHR ''e''}
              \<and> gp = [(0, CHR ''c''), (1, CHR ''r''), (2, CHR ''a''), (3, CHR ''n'')]
              \<and> grp = [(4, CHR ''e'')]
              \<and> list_t (filter_words (build ?D) g grp y gp ''crane'') = [''crank'']"
      by code_simp
    with that show ?thesis by (auto split: sum.splits)
  qed
  define self1' where "self1' = ?self1\<lparr>yellow_attr := Present y, gray_attr := Present g,
      green_pos_attr := Present gp, gray_pos_attr := Present grp,
      word_trie_attr := Present (Some (filter_words (build ?D) g grp y gp ''crane'')),
      word_list := list_t (filter_words (build ?D) g grp y gp ''crane'')\<rparr>"
  have sub: "subset_trie ?self1 ''cran+'' = Inr self1'"
    unfolding subset_trie_def self1'_def Let_def using f0 fb by (simp del: enumerate_simps)
  have wl: "word_list self1' = [''crank'']"
    by (simp add: self1'_def l)
  obtain freqs where ug: "u_get_guess w self1' =
      Inr (''crank'', self1'\<lparr>letter_frequency_abs := Counter ''crank'', letter_frequency_pos := freqs\<rparr>)"
    using u_get_guess_one [OF wl, of w] by auto
  let ?self2 = "self1'\<lparr>letter_frequency_abs := Counter ''crank'', letter_frequency_pos := freqs\<rparr>"
  have t: "u_tried self1' = [''crane'']" "u_tried ?self2 = [''crane'']"
    by (simp_all add: self1'_def)
  have g2: "get_guess w ?self1 ''cran+'' =
      Some (Inr (''crank'', ?self2\<lparr>u_tried := u_tried ?self2 @ [''crank'']\<rparr>))"
  proof (rule get_guess_next [OF _ _ _ sub _ ug])
    show "u_manual ?self1 \<noteq> ''manual''" using f0 by simp
    show "u_tried ?self1 \<noteq> []" by simp
    show "length ''cran+'' = 5" by simp
    show "u_tried self1' \<noteq> []" using t by simp
    show "''crank'' \<notin> set (u_tried ?self2)" using t by simp
    show "length ''crank'' = 5" by simp
  qed
  let ?S2 = "?self2\<lparr>u_tried := u_tried ?self2 @ [''crank'']\<rparr>"
  have "u_tried ?S2 = [''crane'', ''crank'']" using t by simp
  moreover have "yellow_attr ?S2 = Present []" "gray_attr ?S2 = Present {CHR ''e''}"
    "green_pos_attr ?S2 = Present [(0, CHR ''c''), (1, CHR ''r''), (2, CHR ''a''), (3, CHR ''n'')]"
    "gray_pos_attr ?S2 = Present [(4, CHR ''e'')]"
    by (simp_all add: self1'_def v)
  ultimately show ?thesis using i g1 g2 by blast
qed

subsection \<open>\<open>restart_game\<close>\<close>

text \<open>
  Claim C7, as the code has it.  After \<open>restart_game\<close> the history \<open>_tried\<close> is empty, the
  candidate list \<open>word_list\<close> is the full dictionary \<open>_word_list\<close> and the working trie
  \<open>word_trie\<close> is \<open>None\<close>, so that the next \<open>subset_trie\<close> filters the trie of the full
  dictionary; \<open>_tried_letter\<close> holds the letters of the opening word; the pattern cache, the
  opening word, the dictionary and its trie are unchanged. The attributes \<open>yellow\<close>, \<open>gray\<close>,
  \<open>green_pos\<close> and \<open>gray_pos\<close> are not reset: they keep the values of the last feedback of
  the game before, until the next \<open>subset_trie\<close> assigns them anew.
\<close>

theorem restart_game_frame:
  "u_tried (restart_game self) = []
   \<and> word_list (restart_game self) = u_word_list self
   \<and> word_trie_attr (restart_game self) = Present None
   \<and> u_tried_letter (restart_game self) = set (opening_word self)
   \<and> u_pattern_cache (restart_game self) = u_pattern_cache self
   \<and> opening_word (restart_game self) = opening_word self
   \<and> u_word_list (restart_game self) = u_word_list self
   \<and> u_word_trie (restart_game self) = u_word_trie self
   \<and> yellow_attr (restart_game self) = yellow_attr self
   \<and> gray_attr (restart_game self) = gray_attr self
   \<and> green_pos_attr (restart_game self) = green_pos_attr self
   \<and> gray_pos_attr (restart_game self) = gray_pos_attr self"
  by (simp add: restart_game_def)

text \<open>
  After the game above, \<open>restart_game\<close> leaves the gray letter \<open>e\<close> and the four green
  positions in place: the constraints are not empty.
\<close>

theorem restart_game_keeps_constraints:
  "gray_attr (restart_game (snd (projr (the (get_guess example_world
      (snd (projr (the (get_guess example_world
         (projr (init [''crane'', ''crank''] ''auto'')) []))))
      ''cran+''))))) = Present {CHR ''e''}
   \<and> green_pos_attr (restart_game (snd (projr (the (get_guess example_world
      (snd (projr (the (get_guess example_world
         (projr (init [''crane'', ''crank''] ''auto'')) []))))
      ''cran+''))))) = Present [(0, CHR ''c''), (1, CHR ''r''), (2, CHR ''a''), (3, CHR ''n'')]"
proof -
  from example_game [of example_world]
  obtain self0 self2 where "init [''crane'', ''crank''] ''auto'' = Inr self0"
    and "get_guess example_world self0 [] = Some (Inr (''crane'', self0\<lparr>u_tried := [''crane'']\<rparr>))"
    and "get_guess example_world (self0\<lparr>u_tried := [''crane'']\<rparr>) ''cran+'' = Some (Inr (''crank'', self2))"
    and "gray_attr self2 = Present {CHR ''e''}"
    and "green_pos_attr self2 = Present [(0, CHR ''c''), (1, CHR ''r''), (2, CHR ''a''), (3, CHR ''n'')]"
    by blast
  then show ?thesis by (simp add: restart_game_def)
qed

subsection \<open>\<open>get_guess\<close> on a dictionary of few letters\<close>

text \<open>
  Claim C8 fails on the code.  With the one-word dictionary \<open>mamma\<close> no combination of the
  most common letters by position has five distinct letters, and the dictionary has only two
  letters: the opening word is \<open>ma\<close>. The first call of \<open>get_guess\<close> takes it as the
  guess, enters the loop under \<open># Avoid crashes\<close> because the guess has not five letters,
  and draws from the letters of an empty history: \<open>np.random.choice\<close> raises \<open>ValueError\<close>,
  whatever the feedback argument and the random generators.
\<close>

theorem get_guess_raises:
  "\<exists>self. init [''mamma''] ''auto'' = Inr self \<and> get_guess w self result = Some (Inl ValueError)"
proof -
  let ?D = "[''mamma'']"
  obtain freqs where p: "pos_loop [0..<5] ?D [] = Inr freqs"
    and l: "letters_loop [0..<5] freqs [] = Inr [''m'', ''a'', ''m'', ''m'', ''a'']"
  proof -
    have "case pos_loop [0..<5] ?D [] of Inl e \<Rightarrow> False
          | Inr freqs \<Rightarrow> letters_loop [0..<5] freqs [] = Inr [''m'', ''a'', ''m'', ''m'', ''a'']"
      by code_simp
    with that show ?thesis by (auto split: sum.splits)
  qed
  have c: "filter (\<lambda>combination. length (remdups combination) = 5)
             (product_lists [''m'', ''a'', ''m'', ''m'', ''a'']) = []"
    by code_simp
  have m: "map fst (most_common 5 (Counter (concat ?D))) = ''ma''"
    by code_simp
  obtain self where i: "init ?D ''auto'' = Inr self" and o: "opening_word self = ''ma''"
    unfolding init_def update_frequencies_def frequency_guess_non_word_def Let_def
    by (simp add: p l c m del: upt.simps product_lists.simps concat.simps)
  note f = init_fields [OF i]
  have "get_guess w self result = Some (Inl ValueError)"
    using f o by (simp add: get_guess_def avoid_crashes_empty)
  with i show ?thesis by blast
qed

end
